theory Spec2Isabelle
  imports Main "HOL-Library.Word"
begin

unbundle bit_operations_syntax

section \<open>The UHF RFID driver as HOL functions\<close>

text \<open>
  The driver talks to the reader module over a UART. Its integers are the C types of the
  32-bit target: \<open>uint8_t\<close>, \<open>uint16_t\<close> and \<open>unsigned long\<close> (32 bits) are words, so
  that every \<open>+\<close>, \<open>-\<close> and \<open>++\<close> wraps as it does in the source.
\<close>

type_synonym u8 = "8 word"
type_synonym u16 = "16 word"
type_synonym u32 = "32 word"

text \<open>
  An access outside an array is undefined behaviour in C++. The model makes each one a
  value: the frame buffer (\<open>buffer[256]\<close>), the tag table (\<open>cards[200]\<close>), and the
  arrays that belong to the caller or to CMD.h.
\<close>

datatype error = BufferIndex | CardIndex | DataIndex

subsection \<open>The platform: clock and serial port\<close>

text \<open>
  \<open>millis()\<close>, \<open>delay()\<close> and the methods of \<open>HardwareSerial\<close> are the platform's. The
  port below is a simulated one: \<open>script p k\<close> is what the \<open>k\<close>-th call into the platform
  finds, the reading of the millisecond clock at that moment and the bytes that have
  reached the UART since the call before. Every call takes its entry of the script
  (\<open>advance\<close>), so bytes may trickle in between any two calls. \<open>rx\<close> holds the bytes
  received and not yet read, \<open>rd\<close> logs the bytes that \<open>read()\<close> has handed out and
  \<open>tx\<close> the frames given to \<open>write()\<close>, oldest first. (\<open>write_port\<close> is \<open>write()\<close>, a
  name Isabelle reserves.)
\<close>

record port =
  script :: "nat \<Rightarrow> u32 \<times> u8 list"
  calls :: nat
  rx :: "u8 list"
  rd :: "u8 list"
  tx :: "u8 list list"

definition advance :: "port \<Rightarrow> port" where
  "advance p = p\<lparr>calls := Suc (calls p), rx := rx p @ snd (script p (calls p))\<rparr>"

definition millis :: "port \<Rightarrow> u32 \<times> port" where
  "millis p = (fst (script p (calls p)), advance p)"

definition available :: "port \<Rightarrow> bool \<times> port" where
  "available p = (rx (advance p) \<noteq> [], advance p)"

text \<open>\<open>read()\<close> returns -1 when nothing is pending, which is 0xFF as a \<open>uint8_t\<close>.\<close>

definition read :: "port \<Rightarrow> u8 \<times> port" where
  "read p =
     (let q = advance p in
      case rx q of
        [] \<Rightarrow> (0xFF, q)
      | b # bs \<Rightarrow> (b, q\<lparr>rx := bs, rd := rd q @ [b]\<rparr>))"

definition write_port :: "port \<Rightarrow> u8 list \<Rightarrow> port" where
  "write_port p frame = (advance p)\<lparr>tx := tx p @ [frame]\<rparr>"

definition delay :: "port \<Rightarrow> port" where
  "delay p = advance p"

subsection \<open>The driver object\<close>

record Card =
  rssi :: u8
  pc :: "u8 list"
  epc :: "u8 list"
  rssi_str :: string
  pc_str :: string
  epc_str :: string

text \<open>
  \<open>Card\<close> is the struct \<open>CARD\<close> of the header (a name HOL reserves). \<open>buffer\<close> is
  \<open>uint8_t buffer[256]\<close> and \<open>cards\<close> is \<open>CARD cards[200]\<close>. \<open>_debug\<close> only
  switches console traces on, which change nothing of the state below, and is left out.
\<close>

record driver =
  buffer :: "u8 list"
  cards :: "Card list"
  serial :: port

subsection \<open>cleanBuffer and waitMsg\<close>

definition cleanBuffer :: "u8 list \<Rightarrow> u8 list" where
  "cleanBuffer buf = fold (\<lambda>i b. b[i := 0]) [0..<200] buf"

text \<open>
  One turn of the loop of \<open>waitMsg\<close>. The result says whether the loop is left (its test
  fails, or the \<open>break\<close> after a 0x7E), with the index, the buffer and the port after the
  turn. The index \<open>i\<close> is a \<open>uint8_t\<close>: \<open>i++\<close> wraps from 255 to 0.
\<close>

definition waitMsg_body :: "u8 \<Rightarrow> u8 list \<Rightarrow> port \<Rightarrow> bool \<times> u8 \<times> u8 list \<times> port" where
  "waitMsg_body i buf p =
     (let (a, p1) = available p in
      if a then
        (let (b, p2) = read p1 in (b = 0x7E, i + 1, buf[unat i := b], p2))
      else (False, i, buf, p1))"

definition waitMsg_turn :: "u32 \<Rightarrow> u32 \<Rightarrow> u8 \<Rightarrow> u8 list \<Rightarrow> port \<Rightarrow> bool \<times> u8 \<times> u8 list \<times> port" where
  "waitMsg_turn start time i buf p =
     (let (a, p1) = available p in
      if a then waitMsg_body i buf p1
      else
        (let (t, p2) = millis p1 in
         if t - start < time then waitMsg_body i buf p2 else (True, i, buf, p2)))"

text \<open>
  The loop may run forever (bytes that never stop arriving and are never 0x7E), so it
  takes fuel, one unit for each turn: \<open>None\<close> is a loop still running when the fuel is spent.
\<close>

fun waitMsg_loop :: "nat \<Rightarrow> u32 \<Rightarrow> u32 \<Rightarrow> u8 \<Rightarrow> u8 list \<Rightarrow> port \<Rightarrow> (u8 \<times> u8 list \<times> port) option" where
  "waitMsg_loop 0 start time i buf p = None"
| "waitMsg_loop (Suc n) start time i buf p =
     (case waitMsg_turn start time i buf p of
        (True, r) \<Rightarrow> Some r
      | (False, i', buf', p') \<Rightarrow> waitMsg_loop n start time i' buf' p')"

text \<open>
  The test after the loop is \<open>buffer[0] == 0xbb && buffer[i - 1] == 0x7e\<close>. \<open>i - 1\<close> is
  computed in \<open>int\<close>, so with \<open>i = 0\<close> the second operand reads \<open>buffer[-1]\<close>; \<open>&&\<close>
  evaluates it only when the first operand holds.
\<close>

definition waitMsg :: "nat \<Rightarrow> u32 \<Rightarrow> driver \<Rightarrow> (error + bool \<times> driver) option" where
  "waitMsg fuel time s =
     (let (start, p0) = millis (serial s) in
      case waitMsg_loop fuel start time 0 (cleanBuffer (buffer s)) p0 of
        None \<Rightarrow> None
      | Some (i, buf, p) \<Rightarrow>
          Some (if buf ! 0 = 0xBB then
                  (if i = 0 then Inl BufferIndex
                   else Inr (buf ! (unat i - 1) = 0x7E, s\<lparr>buffer := buf, serial := p\<rparr>))
                else Inr (False, s\<lparr>buffer := buf, serial := p\<rparr>)))"

text \<open>The header declares \<open>bool waitMsg(unsigned long timerout = 500)\<close>.\<close>

definition waitMsg_default :: u32 where
  "waitMsg_default = 500"

definition sendCMD :: "driver \<Rightarrow> u8 list \<Rightarrow> driver" where
  "sendCMD s frame = s\<lparr>serial := write_port (serial s) frame\<rparr>"

subsection \<open>Command frames\<close>

text \<open>
  CMD.h, which holds the command templates and the error signatures, is not among the
  sources. Its arrays are parameters of the model: a \<open>cmd_tables\<close> holds the ones the
  functions below name, each as the list of its bytes (\<open>sizeof\<close> is the length).
  The parameter \<open>size\<close> of \<open>writeCard\<close> and \<open>readCard\<close> is written \<open>sz\<close>, since HOL
  reserves \<open>size\<close>; it is a \<open>size_t\<close>, modelled as a natural number.
\<close>

record cmd_tables =
  POLLING_ONCE_CMD :: "u8 list"
  POLLING_MULTIPLE_CMD :: "u8 list"
  READ_STORAGE_CMD :: "u8 list"
  READ_STORAGE_ERROR :: "u8 list"
  WRITE_STORAGE_CMD :: "u8 list"
  WRITE_STORAGE_ERROR :: "u8 list"
  SET_TX_POWER :: "u8 list"

text \<open>\<open>memcpy(buffer, src, sizeof(src))\<close>: the template goes over the head of the buffer.\<close>

definition memcpy_buffer :: "u8 list \<Rightarrow> u8 list \<Rightarrow> error + u8 list" where
  "memcpy_buffer buf src =
     (if length src \<le> 256 then Inr (src @ drop (length src) buf) else Inl BufferIndex)"

text \<open>
  The checksum loop, \<open>uint8_t check = 0; for (i = lo; i < hi; i++) check += buffer[i];\<close>.
  The sum is a \<open>uint8_t\<close>, so it is taken modulo 256.
\<close>

definition sum_bytes :: "u8 list \<Rightarrow> nat \<Rightarrow> nat \<Rightarrow> u8" where
  "sum_bytes buf lo hi = fold (\<lambda>i check. check + buf ! i) [lo..<hi] 0"

definition setTxPower_frame :: "u8 list \<Rightarrow> u8 list \<Rightarrow> u16 \<Rightarrow> error + u8 list" where
  "setTxPower_frame tmpl buf db =
     (case memcpy_buffer buf tmpl of
        Inl e \<Rightarrow> Inl e
      | Inr b0 \<Rightarrow>
          (let b1 = b0[5 := ucast (drop_bit 8 db AND 0xFF)];
               b2 = b1[6 := ucast (db AND 0xFF)];
               check = sum_bytes b2 1 7
           in Inr (b2[7 := check AND 0xFF])))"

definition setTxPower :: "nat \<Rightarrow> cmd_tables \<Rightarrow> driver \<Rightarrow> u16 \<Rightarrow> (error + bool \<times> driver) option" where
  "setTxPower fuel c s db =
     (case setTxPower_frame (SET_TX_POWER c) (buffer s) db of
        Inl e \<Rightarrow> Some (Inl e)
      | Inr b \<Rightarrow>
          (case waitMsg fuel waitMsg_default
                  (sendCMD (s\<lparr>buffer := b\<rparr>) (take (length (SET_TX_POWER c)) b)) of
             None \<Rightarrow> None
           | Some (Inl e) \<Rightarrow> Some (Inl e)
           | Some (Inr (False, s1)) \<Rightarrow> Some (Inr (False, s1))
           | Some (Inr (True, s1)) \<Rightarrow>
               Some (Inr (if buffer s1 ! 2 \<noteq> 0xB6 then False else True, s1))))"







subsection \<open>setRegion\<close>

text \<open>
  \<open>while (_serial->available()) { _serial->read(); }\<close> runs for as long as bytes are
  pending, so it takes fuel too.
\<close>

fun drain :: "nat \<Rightarrow> port \<Rightarrow> port option" where
  "drain 0 p = None"
| "drain (Suc n) p =
     (let (a, p1) = available p in
      if a then drain n (snd (read p1)) else Some p1)"

definition setRegion_frame :: "u8 \<Rightarrow> u8 list" where
  "setRegion_frame regionCode =
     (let setRegionCmd = [0xBB, 0x00, 0x07, 0x00, 0x01, regionCode, 0x00, 0x7E];
          checksum = sum_bytes setRegionCmd 1 (length setRegionCmd - 2)
      in setRegionCmd[length setRegionCmd - 2 := checksum])"

definition setRegion :: "nat \<Rightarrow> driver \<Rightarrow> u8 \<Rightarrow> (bool \<times> driver) option" where
  "setRegion fuel s regionCode =
     (let s1 = sendCMD s (setRegion_frame regionCode);
          p = delay (serial s1)
      in case drain fuel p of
           None \<Rightarrow> None
         | Some p' \<Rightarrow> Some (True, s1\<lparr>serial := p'\<rparr>))"

subsection \<open>The tag table\<close>

definition hexdigit :: "nat \<Rightarrow> char" where
  "hexdigit n = ''0123456789abcdef'' ! n"

text \<open>\<open>String(num, HEX)\<close> prints without leading zeros, in lower case.\<close>

definition hex2str :: "u8 \<Rightarrow> string" where
  "hex2str num =
     (if num > 0xF then [hexdigit (unat num div 16), hexdigit (unat num mod 16)]
      else ''0'' @ [hexdigit (unat num)])"

definition empty_card :: Card where
  "empty_card = \<lparr>rssi = 0, pc = [0, 0], epc = replicate 12 0,
                  rssi_str = [], pc_str = [], epc_str = []\<rparr>"

definition cleanCardsBuffer :: "Card list \<Rightarrow> Card list" where
  "cleanCardsBuffer cs = fold (\<lambda>i c. c[i := empty_card]) [0..<200] cs"

fun filterCardInfo_from :: "Card list \<Rightarrow> string \<Rightarrow> nat list \<Rightarrow> bool" where
  "filterCardInfo_from cs e [] = True"
| "filterCardInfo_from cs e (i # is) =
     (if e = epc_str (cs ! i) then False else filterCardInfo_from cs e is)"

definition filterCardInfo :: "Card list \<Rightarrow> string \<Rightarrow> bool" where
  "filterCardInfo cs e = filterCardInfo_from cs e [0..<200]"

text \<open>
  \<open>saveCardInfo(CARD *card)\<close> is only ever called with \<open>&cards[count]\<close>: the pointer is
  the slot \<open>k\<close> it points to, and a store through it lands in the table when \<open>k < 200\<close>.
\<close>

definition saveCardInfo :: "driver \<Rightarrow> nat \<Rightarrow> error + bool \<times> driver" where
  "saveCardInfo s k =
     (let buf = buffer s;
          rssi = hex2str (buf ! 5);
          pc = hex2str (buf ! 6) @ hex2str (buf ! 7);
          epc = fold (\<lambda>i e. e @ hex2str (buf ! i)) [8..<20] []
      in if \<not> filterCardInfo (cards s) epc then Inr (False, s)
         else if \<not> k < 200 then Inl CardIndex
         else Inr (True, s\<lparr>cards := (cards s)[k :=
                \<lparr>rssi = buf ! 5, pc = [buf ! 6, buf ! 7], epc = map (\<lambda>i. buf ! i) [8..<20],
                 rssi_str = rssi, pc_str = pc, epc_str = epc\<rparr>]\<rparr>))"

text \<open>
  The loops of \<open>pollingOnce\<close> and \<open>pollingMultiple\<close> run for as long as \<open>waitMsg\<close>
  succeeds: fuel again, one unit for each turn, and the same amount for each \<open>waitMsg\<close>.
\<close>

fun pollingOnce_loop :: "nat \<Rightarrow> u8 \<Rightarrow> driver \<Rightarrow> (error + u8 \<times> driver) option" where
  "pollingOnce_loop 0 count s = None"
| "pollingOnce_loop (Suc n) count s =
     (case waitMsg n waitMsg_default s of
        None \<Rightarrow> None
      | Some (Inl e) \<Rightarrow> Some (Inl e)
      | Some (Inr (False, s1)) \<Rightarrow> Some (Inr (count, s1))
      | Some (Inr (True, s1)) \<Rightarrow>
          (if buffer s1 ! 23 = 0x7E then
             (if count < 200 then
                (case saveCardInfo s1 (unat count) of
                   Inl e \<Rightarrow> Some (Inl e)
                 | Inr (True, s2) \<Rightarrow> pollingOnce_loop n (count + 1) s2
                 | Inr (False, s2) \<Rightarrow> pollingOnce_loop n count s2)
              else Some (Inr (200, s1)))
           else pollingOnce_loop n count s1))"

definition pollingOnce :: "nat \<Rightarrow> cmd_tables \<Rightarrow> driver \<Rightarrow> (error + u8 \<times> driver) option" where
  "pollingOnce fuel c s =
     pollingOnce_loop fuel 0
       (sendCMD (s\<lparr>cards := cleanCardsBuffer (cards s)\<rparr>) (POLLING_ONCE_CMD c))"

fun pollingMultiple_loop :: "nat \<Rightarrow> u8 \<Rightarrow> driver \<Rightarrow> (error + u8 \<times> driver) option" where
  "pollingMultiple_loop 0 count s = None"
| "pollingMultiple_loop (Suc n) count s =
     (case waitMsg n waitMsg_default s of
        None \<Rightarrow> None
      | Some (Inl e) \<Rightarrow> Some (Inl e)
      | Some (Inr (False, s1)) \<Rightarrow> Some (Inr (count, s1))
      | Some (Inr (True, s1)) \<Rightarrow>
          (if buffer s1 ! 23 = 0x7E then
             (if count < 200 then
                (case saveCardInfo s1 (unat count) of
                   Inl e \<Rightarrow> Some (Inl e)
                 | Inr (True, s2) \<Rightarrow> pollingMultiple_loop n (count + 1) s2
                 | Inr (False, s2) \<Rightarrow> pollingMultiple_loop n count s2)
              else Some (Inr (count, s1)))
           else pollingMultiple_loop n count s1))"

definition pollingMultiple_frame :: "u8 list \<Rightarrow> u8 list \<Rightarrow> u16 \<Rightarrow> error + u8 list" where
  "pollingMultiple_frame tmpl buf polling_count =
     (case memcpy_buffer buf tmpl of
        Inl e \<Rightarrow> Inl e
      | Inr b0 \<Rightarrow>
          (let b1 = b0[6 := ucast (drop_bit 8 polling_count AND 0xFF),
                       7 := ucast (polling_count AND 0xFF)];
               check = sum_bytes b1 1 8
           in Inr (b1[8 := check AND 0xFF])))"

definition pollingMultiple :: "nat \<Rightarrow> cmd_tables \<Rightarrow> driver \<Rightarrow> u16 \<Rightarrow> (error + u8 \<times> driver) option" where
  "pollingMultiple fuel c s polling_count =
     (case pollingMultiple_frame (POLLING_MULTIPLE_CMD c) (buffer s) polling_count of
        Inl e \<Rightarrow> Some (Inl e)
      | Inr b \<Rightarrow>
          pollingMultiple_loop fuel 0
            (sendCMD (s\<lparr>cards := cleanCardsBuffer (cards s), buffer := b\<rparr>)
               (take (length (POLLING_MULTIPLE_CMD c)) b)))"

section \<open>Notions for the statements\<close>

text \<open>
  \<open>store i bs buf\<close> is the buffer after the loop of \<open>waitMsg\<close> has stored the bytes
  \<open>bs\<close> from the index \<open>i\<close> on, wrapping with the index. \<open>pop p\<close> is the port after a
  turn of the loop that reads a byte.
\<close>

fun store :: "u8 \<Rightarrow> u8 list \<Rightarrow> u8 list \<Rightarrow> u8 list" where
  "store i [] buf = buf"
| "store i (b # bs) buf = store (i + 1) bs (buf[unat i := b])"

definition pop :: "port \<Rightarrow> port" where
  "pop p = snd (read (snd (available (snd (available p)))))"

text \<open>
  What a transport may be assumed to do. \<open>no_terminator p\<close>: no 0x7E is pending and none
  arrives from now on. \<open>quiet_from sc K\<close>: nothing arrives from the \<open>K\<close>-th platform call
  on. \<open>backlog p K\<close>: the number of bytes that are pending or arrive before the \<open>K\<close>-th
  call. \<open>late_between sc start time K L\<close>: every clock reading from the \<open>K\<close>-th call up to
  the \<open>L\<close>-th shows at least \<open>time\<close> elapsed since \<open>start\<close> (in the 32-bit arithmetic of
  the source, so the clock may have wrapped since \<open>start\<close>).
\<close>

definition no_terminator :: "port \<Rightarrow> bool" where
  "no_terminator p = (0x7E \<notin> set (rx p) \<and> (\<forall>k\<ge>calls p. 0x7E \<notin> set (snd (script p k))))"

definition quiet_from :: "(nat \<Rightarrow> u32 \<times> u8 list) \<Rightarrow> nat \<Rightarrow> bool" where
  "quiet_from sc K = (\<forall>k\<ge>K. snd (sc k) = [])"

definition backlog :: "port \<Rightarrow> nat \<Rightarrow> nat" where
  "backlog p K = length (rx p) + (\<Sum>k = calls p..<K. length (snd (script p k)))"

definition late_between :: "(nat \<Rightarrow> u32 \<times> u8 list) \<Rightarrow> u32 \<Rightarrow> u32 \<Rightarrow> nat \<Rightarrow> nat \<Rightarrow> bool" where
  "late_between sc start time K L = (\<forall>k. K \<le> k \<and> k < L \<longrightarrow> time \<le> fst (sc k) - start)"

text \<open>\<open>verdict\<close> keeps the boolean (or the error) of a result and drops the state.\<close>

definition verdict :: "(error + bool \<times> 'a) option \<Rightarrow> (error + bool) option" where
  "verdict r = map_option (map_sum id fst) r"

text \<open>
  \<open>epc_of buf\<close> is the EPC string and \<open>card_of buf\<close> the record that \<open>saveCardInfo\<close>
  makes of the frame in \<open>buf\<close>.
\<close>

definition epc_of :: "u8 list \<Rightarrow> string" where
  "epc_of buf = fold (\<lambda>i e. e @ hex2str (buf ! i)) [8..<20] []"

definition card_of :: "u8 list \<Rightarrow> Card" where
  "card_of buf = \<lparr>rssi = buf ! 5, pc = [buf ! 6, buf ! 7], epc = map (\<lambda>i. buf ! i) [8..<20],
                   rssi_str = hex2str (buf ! 5), pc_str = hex2str (buf ! 6) @ hex2str (buf ! 7),
                   epc_str = epc_of buf\<rparr>"

text \<open>
  The registry as the specification words it. A slot is free when it is as
  \<open>cleanCardsBuffer\<close> leaves it; \<open>next_free cs\<close> is the index of the first free slot of the
  table, 200 when none is free. \<open>insertIfNew\<close> stores through the pointer to that slot, and
  \<open>scan_loop\<close> is the loop of a scan that inserts with \<open>insertIfNew\<close> and stops when no
  slot is free. \<open>packed cs n\<close> says that the slots below \<open>n\<close> are taken and the others free.
\<close>

definition next_free :: "Card list \<Rightarrow> nat" where
  "next_free cs = length (takeWhile (\<lambda>c. c \<noteq> empty_card) (take 200 cs))"

definition packed :: "Card list \<Rightarrow> nat \<Rightarrow> bool" where
  "packed cs n = ((\<forall>c\<in>set (take n cs). c \<noteq> empty_card) \<and> (\<forall>c\<in>set (drop n cs). c = empty_card))"

definition insertIfNew :: "driver \<Rightarrow> error + bool \<times> driver" where
  "insertIfNew s = saveCardInfo s (next_free (cards s))"

fun scan_loop :: "nat \<Rightarrow> u8 \<Rightarrow> driver \<Rightarrow> (error + u8 \<times> driver) option" where
  "scan_loop 0 count s = None"
| "scan_loop (Suc n) count s =
     (case waitMsg n waitMsg_default s of
        None \<Rightarrow> None
      | Some (Inl e) \<Rightarrow> Some (Inl e)
      | Some (Inr (False, s1)) \<Rightarrow> Some (Inr (count, s1))
      | Some (Inr (True, s1)) \<Rightarrow>
          (if buffer s1 ! 23 = 0x7E then
             (if next_free (cards s1) < 200 then
                (case insertIfNew s1 of
                   Inl e \<Rightarrow> Some (Inl e)
                 | Inr (True, s2) \<Rightarrow> scan_loop n (count + 1) s2
                 | Inr (False, s2) \<Rightarrow> scan_loop n count s2)
              else Some (Inr (200, s1)))
           else scan_loop n count s1))"

subsection \<open>Inputs of the examples\<close>

text \<open>
  \<open>silent\<close> is a transport on which nothing arrives while the clock gains 100 ms with
  every call; \<open>port_with bs\<close> is a port on it with the bytes \<open>bs\<close> already received, and
  \<open>driver_with bs\<close> a driver on that port whose buffer holds 0x55 throughout. On
  \<open>chatty\<close> a zero byte arrives before every call.
\<close>

definition silent :: "nat \<Rightarrow> u32 \<times> u8 list" where
  "silent k = (of_nat (100 * k), [])"

definition port_with :: "u8 list \<Rightarrow> port" where
  "port_with bs = \<lparr>script = silent, calls = 0, rx = bs, rd = [], tx = []\<rparr>"

definition driver_with :: "u8 list \<Rightarrow> driver" where
  "driver_with bs = \<lparr>buffer = replicate 256 0x55, cards = replicate 200 empty_card,
                      serial = port_with bs\<rparr>"

definition chatty :: "nat \<Rightarrow> u32 \<times> u8 list" where
  "chatty k = (of_nat k, [0x00])"

definition chatty_driver :: driver where
  "chatty_driver = \<lparr>buffer = replicate 256 0, cards = replicate 200 empty_card,
                      serial = \<lparr>script = chatty, calls = 0, rx = [], rd = [], tx = []\<rparr>\<rparr>"

text \<open>A table of templates and signatures for the examples.\<close>

definition tabs :: cmd_tables where
  "tabs = \<lparr>POLLING_ONCE_CMD = [0xBB, 0x00, 0x22, 0x00, 0x00, 0x22, 0x7E],
            POLLING_MULTIPLE_CMD = [0xBB, 0x00, 0x27, 0x00, 0x03, 0x22, 0x27, 0x10, 0x83, 0x7E],
            READ_STORAGE_CMD = [0xBB, 0x00, 0x39, 0x00, 0x09, 0x00, 0x00, 0xFF, 0xFF, 0x03, 0x00,
                                0x00, 0x00, 0x02, 0x45, 0x7E],
            READ_STORAGE_ERROR = [0xBB, 0x01, 0xFF, 0x00, 0x01, 0x09, 0x0A, 0x7E],
            WRITE_STORAGE_CMD = [0xBB, 0x00, 0x49, 0x00, 0x0D, 0x00, 0x00, 0xFF, 0xFF, 0x03, 0x00,
                                 0x00, 0x00, 0x02, 0x12, 0x34, 0x56, 0x78, 0x6D, 0x7E],
            WRITE_STORAGE_ERROR = [0xBB, 0x01, 0xFF, 0x00, 0x01, 0x10, 0x0A, 0x7E],
            SET_TX_POWER = [0xBB, 0x00, 0xB6, 0x00, 0x02, 0x07, 0xD0, 0x8F, 0x7E]\<rparr>"

text \<open>
  An inventory frame of 24 bytes with the RSSI \<open>r\<close>, and a driver with an empty table and
  the frame \<open>buf\<close> at the head of its buffer.
\<close>

definition tag_frame :: "u8 \<Rightarrow> u8 list" where
  "tag_frame r = [0xBB, 0x02, 0x22, 0x00, 0x11, r, 0x34, 0x00,
                  0x01, 0x02, 0x03, 0x04, 0x05, 0x06, 0x07, 0x08, 0x09, 0x0A, 0x0B, 0x0C,
                  0x3A, 0x5C, 0x00, 0x7E]"

definition table_driver :: "u8 list \<Rightarrow> driver" where
  "table_driver buf = \<lparr>buffer = buf @ replicate (256 - length buf) 0,
                        cards = replicate 200 empty_card, serial = port_with []\<rparr>"

section \<open>Lemmas\<close>

subsection \<open>The buffer\<close>

lemma length_store [simp]: "length (store i bs buf) = length buf"
  by (induction bs arbitrary: i buf) auto

lemma store_append: "store i (xs @ ys) buf = store (i + of_nat (length xs)) ys (store i xs buf)"
  by (induction xs arbitrary: i buf) (auto simp: add.assoc add.commute)

lemma unat_u8_lt: "unat (i :: u8) < 256"
  using unsigned_less [of i, where ?'a = nat] by simp

lemma unat_u8_Suc: "unat (i :: u8) + 1 < 256 \<Longrightarrow> unat (i + 1) = unat i + 1"
  by (simp add: unat_word_ariths)

lemma store_short:
  "unat i + length bs \<le> 256 \<Longrightarrow> length buf = 256 \<Longrightarrow>
   store i bs buf = take (unat i) buf @ bs @ drop (unat i + length bs) buf"
proof (induction bs arbitrary: i buf)
  case Nil
  then show ?case by simp
next
  case (Cons b bs)
  show ?case
  proof (cases "bs = []")
    case True
    with Cons.prems show ?thesis
      by (simp add: upd_conv_take_nth_drop)
  next
    case False
    with Cons.prems have lt: "unat i + 1 < 256" by (cases bs) auto
    then have s: "unat (i + 1) = unat i + 1" by (rule unat_u8_Suc)
    have "store (i + 1) bs (buf[unat i := b]) =
          take (unat (i + 1)) (buf[unat i := b]) @ bs @ drop (unat (i + 1) + length bs) (buf[unat i := b])"
      using Cons.prems s by (intro Cons.IH) auto
    then show ?thesis
      using Cons.prems lt by (simp add: s take_Suc_conv_app_nth)
  qed
qed

lemma store_last:
  assumes "bs \<noteq> []" "length buf = 256" "i + of_nat (length bs) \<noteq> 0"
  shows "store i bs buf ! (unat (i + of_nat (length bs)) - 1) = last bs"
proof -
  obtain xs b where bs: "bs = xs @ [b]"
    using assms(1) by (metis append_butlast_last_id)
  define j where "j = i + of_nat (length xs)"
  have ne: "j + 1 \<noteq> 0" using assms(3) by (simp add: bs j_def ac_simps)
  have "unat j + 1 < 256"
  proof (rule ccontr)
    assume "\<not> unat j + 1 < 256"
    then have "unat j = 255" using unat_u8_lt [of j] by simp
    then have "of_nat (unat j) = (of_nat 255 :: u8)" by simp
    then have "j = 255" by simp
    then show False using ne by simp
  qed
  then have "unat (j + 1) = unat j + 1" by (rule unat_u8_Suc)
  moreover have "i + of_nat (length bs) = j + 1" by (simp add: bs j_def ac_simps)
  ultimately have idx: "unat (i + of_nat (length bs)) - 1 = unat j" by simp
  have st: "store i bs buf = (store i xs buf)[unat j := b]"
    by (simp add: bs store_append j_def)
  have "(store i xs buf)[unat j := b] ! unat j = b"
    using unat_u8_lt [of j] assms(2) by simp
  then show ?thesis
    unfolding idx st by (simp add: bs)
qed

lemma cleanBuffer_fold:
  "n \<le> length buf \<Longrightarrow> fold (\<lambda>i b. b[i := 0]) [0..<n] buf = replicate n (0::u8) @ drop n buf"
proof (induction n)
  case 0
  then show ?case by simp
next
  case (Suc n)
  then have "fold (\<lambda>i b. b[i := 0]) [0..<Suc n] buf = (replicate n 0 @ drop n buf)[n := 0]"
    by simp
  also have "\<dots> = replicate n 0 @ (drop n buf)[0 := 0]"
    by (simp add: list_update_append)
  also have "drop n buf = buf ! n # drop (Suc n) buf"
    using Suc.prems by (simp add: Cons_nth_drop_Suc)
  finally show ?case by (simp add: replicate_append_same)
qed

lemma cleanBuffer_eq: "length buf = 256 \<Longrightarrow> cleanBuffer buf = replicate 200 0 @ drop 200 buf"
  by (simp add: cleanBuffer_def cleanBuffer_fold)

lemma advance_simps [simp]:
  "script (advance p) = script p" "calls (advance p) = Suc (calls p)"
  "rx (advance p) = rx p @ snd (script p (calls p))" "rd (advance p) = rd p" "tx (advance p) = tx p"
  by (simp_all add: advance_def)

lemma no_terminator_advance: "no_terminator p \<Longrightarrow> no_terminator (advance p)"
  by (auto simp: no_terminator_def)

lemma waitMsg_turn_cases:
  assumes "waitMsg_turn start time i buf p = (stop, i', buf', p')"
  shows "script p' = script p \<and> tx p' = tx p \<and> calls p < calls p' \<and>
         ((\<exists>b. rd p' = rd p @ [b] \<and> i' = i + 1 \<and> buf' = buf[unat i := b] \<and> stop = (b = 0x7E)) \<or>
          (rd p' = rd p \<and> i' = i \<and> buf' = buf \<and>
           (stop \<longrightarrow> time \<le> fst (script p (calls p' - 1)) - start)))"
  using assms
  by (auto simp: waitMsg_turn_def waitMsg_body_def available_def millis_def read_def
      Let_def not_less split: if_splits list.splits)

lemma waitMsg_loop_sound:
  "waitMsg_loop n start time i buf p = Some (i', buf', p') \<Longrightarrow>
   \<exists>ns. rd p' = rd p @ ns \<and> i' = i + of_nat (length ns) \<and> buf' = store i ns buf \<and>
        0x7E \<notin> set (butlast ns) \<and> script p' = script p \<and> tx p' = tx p \<and> calls p < calls p' \<and>
        ((ns \<noteq> [] \<and> last ns = 0x7E) \<or>
         (0x7E \<notin> set ns \<and> time \<le> fst (script p (calls p' - 1)) - start))"
proof (induction n arbitrary: i buf p)
  case 0
  then show ?case by simp
next
  case (Suc n)
  obtain stop i1 buf1 p1 where turn: "waitMsg_turn start time i buf p = (stop, i1, buf1, p1)"
    by (metis prod_cases4)
  note facts = waitMsg_turn_cases [OF turn]
  show ?case
  proof (cases stop)
    case True
    with Suc.prems turn have res: "i' = i1" "buf' = buf1" "p' = p1" by simp_all
    from facts True show ?thesis
    proof (elim conjE disjE exE)
      fix b
      assume "rd p1 = rd p @ [b]" "i1 = i + 1" "buf1 = buf[unat i := b]" "stop = (b = 0x7E)"
        "script p1 = script p" "tx p1 = tx p" "calls p < calls p1"
      with True res show ?thesis
        by (intro exI [of _ "[b]"]) simp
    next
      assume "rd p1 = rd p" "i1 = i" "buf1 = buf" "stop \<longrightarrow> time \<le> fst (script p (calls p1 - 1)) - start"
        "script p1 = script p" "tx p1 = tx p" "calls p < calls p1"
      with True res show ?thesis
        by (intro exI [of _ "[]"]) simp
    qed
  next
    case False
    with Suc.prems turn have "waitMsg_loop n start time i1 buf1 p1 = Some (i', buf', p')"
      by simp
    from Suc.IH [OF this] obtain ns where ih:
      "rd p' = rd p1 @ ns" "i' = i1 + of_nat (length ns)" "buf' = store i1 ns buf1"
      "0x7E \<notin> set (butlast ns)" "script p' = script p1" "tx p' = tx p1" "calls p1 < calls p'"
      "(ns \<noteq> [] \<and> last ns = 0x7E) \<or> (0x7E \<notin> set ns \<and> time \<le> fst (script p1 (calls p' - 1)) - start)"
      by blast
    from facts False show ?thesis
    proof (elim conjE disjE exE)
      fix b
      assume a: "rd p1 = rd p @ [b]" "i1 = i + 1" "buf1 = buf[unat i := b]" "stop = (b = 0x7E)"
        "script p1 = script p" "tx p1 = tx p" "calls p < calls p1"
      with False have nb: "b \<noteq> 0x7E" by simp
      show ?thesis
        using a ih nb by (intro exI [of _ "b # ns"]) (auto simp: ac_simps)
    next
      assume a: "rd p1 = rd p" "i1 = i" "buf1 = buf"
        "script p1 = script p" "tx p1 = tx p" "calls p < calls p1"
      show ?thesis
        using a ih by (intro exI [of _ ns]) auto
    qed
  qed
qed

lemma waitMsg_sound:
  assumes "waitMsg n time s = Some r" and "length (buffer s) = 256"
  shows "\<exists>ns p. rd p = rd (serial s) @ ns \<and> tx p = tx (serial s) \<and> script p = script (serial s) \<and>
           Suc (calls (serial s)) < calls p \<and> 0x7E \<notin> set (butlast ns) \<and>
           ((ns \<noteq> [] \<and> last ns = 0x7E) \<or>
            (0x7E \<notin> set ns \<and>
             time \<le> fst (script (serial s) (calls p - 1)) - fst (script (serial s) (calls (serial s))))) \<and>
           r = (let buf = store 0 ns (cleanBuffer (buffer s)); i = (of_nat (length ns) :: u8);
                    s' = s\<lparr>buffer := buf, serial := p\<rparr>
                in if buf ! 0 = 0xBB then
                     (if i = 0 then Inl BufferIndex else Inr (buf ! (unat i - 1) = 0x7E, s'))
                   else Inr (False, s'))"
proof -
  define p0 where "p0 = advance (serial s)"
  define start where "start = fst (script (serial s) (calls (serial s)))"
  from assms(1) obtain i buf p where
    loop: "waitMsg_loop n start time 0 (cleanBuffer (buffer s)) p0 = Some (i, buf, p)" and
    r: "r = (if buf ! 0 = 0xBB then
               (if i = 0 then Inl BufferIndex
                else Inr (buf ! (unat i - 1) = 0x7E, s\<lparr>buffer := buf, serial := p\<rparr>))
             else Inr (False, s\<lparr>buffer := buf, serial := p\<rparr>))"
    by (auto simp: waitMsg_def millis_def p0_def start_def split: option.splits)
  from waitMsg_loop_sound [OF loop] obtain ns where
    "rd p = rd p0 @ ns" "i = 0 + of_nat (length ns)" "buf = store 0 ns (cleanBuffer (buffer s))"
    "0x7E \<notin> set (butlast ns)" "script p = script p0" "tx p = tx p0" "calls p0 < calls p"
    "(ns \<noteq> [] \<and> last ns = 0x7E) \<or> (0x7E \<notin> set ns \<and> time \<le> fst (script p0 (calls p - 1)) - start)"
    by blast
  then show ?thesis
    using r by (intro exI [of _ ns] exI [of _ p]) (simp add: p0_def start_def Let_def)
qed


lemma store_0_short:
  assumes "length ns \<le> 256" "length buf = 256"
  shows "store 0 ns buf = ns @ drop (length ns) buf"
  using store_short [of 0 ns buf] assms by simp

lemma of_nat_u8_eq_0: "n < 256 \<Longrightarrow> ((of_nat n :: u8) = 0) = (n = 0)"
  by (auto simp: word_of_nat_eq_0_iff dest: dvd_imp_le)

lemma unat_of_nat_u8: "n < 256 \<Longrightarrow> unat (of_nat n :: u8) = n"
  by (simp add: unat_of_nat)

lemma cleanBuffer_0: "length buf = 256 \<Longrightarrow> cleanBuffer buf ! 0 = 0"
  by (simp add: cleanBuffer_eq nth_append)

lemma length_cleanBuffer: "length buf = 256 \<Longrightarrow> length (cleanBuffer buf) = 256"
  by (simp add: cleanBuffer_eq)

lemma verdict_short:
  assumes short: "length ns < 256" and len: "length cb = 256" and z: "cb ! 0 = 0"
  shows "(let buf = store 0 ns cb; i = (of_nat (length ns) :: u8)
          in if buf ! 0 = 0xBB then
               (if i = 0 then Inl BufferIndex else Inr (buf ! (unat i - 1) = 0x7E, f buf))
             else Inr (False, f buf)) =
         Inr (ns \<noteq> [] \<and> hd ns = 0xBB \<and> last ns = 0x7E, f (ns @ drop (length ns) cb))"
proof -
  have st: "store 0 ns cb = ns @ drop (length ns) cb"
    using short len by (intro store_0_short) simp_all
  show ?thesis
  proof (cases "ns = []")
    case True
    then show ?thesis using z by simp
  next
    case False
    then have "(ns @ drop (length ns) cb) ! 0 = hd ns"
      by (simp add: nth_append hd_conv_nth)
    moreover have "(ns @ drop (length ns) cb) ! (length ns - 1) = last ns"
      using False by (simp add: nth_append last_conv_nth)
    ultimately show ?thesis
      using False short unfolding st Let_def
      by (simp add: of_nat_u8_eq_0 unat_of_nat_u8)
  qed
qed

lemma waitMsg_Inr:
  assumes "waitMsg n time s = Some (Inr (ok, s'))" and "length (buffer s) = 256"
  shows "\<exists>ns. rd (serial s') = rd (serial s) @ ns \<and> tx (serial s') = tx (serial s) \<and>
           script (serial s') = script (serial s) \<and> cards s' = cards s \<and>
           Suc (calls (serial s)) < calls (serial s') \<and> 0x7E \<notin> set (butlast ns) \<and>
           buffer s' = store 0 ns (cleanBuffer (buffer s)) \<and>
           ((ns \<noteq> [] \<and> last ns = 0x7E) \<or>
            (0x7E \<notin> set ns \<and>
             time \<le> fst (script (serial s) (calls (serial s') - 1)) -
                     fst (script (serial s) (calls (serial s))))) \<and>
           (length ns < 256 \<longrightarrow>
              buffer s' = ns @ drop (length ns) (cleanBuffer (buffer s)) \<and>
              ok = (ns \<noteq> [] \<and> hd ns = 0xBB \<and> last ns = 0x7E))"
proof -
  from waitMsg_sound [OF assms] obtain ns p where b:
    "rd p = rd (serial s) @ ns" "tx p = tx (serial s)" "script p = script (serial s)"
    "Suc (calls (serial s)) < calls p" "0x7E \<notin> set (butlast ns)"
    "(ns \<noteq> [] \<and> last ns = 0x7E) \<or>
     (0x7E \<notin> set ns \<and>
      time \<le> fst (script (serial s) (calls p - 1)) - fst (script (serial s) (calls (serial s))))"
    and r: "Inr (ok, s') =
          (let buf = store 0 ns (cleanBuffer (buffer s)); i = (of_nat (length ns) :: u8)
           in if buf ! 0 = 0xBB then
                (if i = 0 then Inl BufferIndex
                 else Inr (buf ! (unat i - 1) = 0x7E, s\<lparr>buffer := buf, serial := p\<rparr>))
              else Inr (False, s\<lparr>buffer := buf, serial := p\<rparr>))"
    unfolding Let_def by blast
  have s': "s' = s\<lparr>buffer := store 0 ns (cleanBuffer (buffer s)), serial := p\<rparr>"
    using r by (auto simp: Let_def split: if_splits)
  have "buffer s' = ns @ drop (length ns) (cleanBuffer (buffer s)) \<and>
        ok = (ns \<noteq> [] \<and> hd ns = 0xBB \<and> last ns = 0x7E)" if sh: "length ns < 256"
  proof -
    have "(Inr (ok, s') :: error + bool \<times> driver) =
          Inr (ns \<noteq> [] \<and> hd ns = 0xBB \<and> last ns = 0x7E,
               s\<lparr>buffer := ns @ drop (length ns) (cleanBuffer (buffer s)), serial := p\<rparr>)"
      unfolding r
      by (rule verdict_short [OF sh length_cleanBuffer [OF assms(2)] cleanBuffer_0 [OF assms(2)]])
    then have "ok = (ns \<noteq> [] \<and> hd ns = 0xBB \<and> last ns = 0x7E)"
      and "s' = s\<lparr>buffer := ns @ drop (length ns) (cleanBuffer (buffer s)), serial := p\<rparr>"
      by simp_all
    then show ?thesis by simp
  qed
  with b show ?thesis
    by (intro exI [of _ ns]) (simp add: s')
qed

lemma pop_simps:
  assumes "rx p \<noteq> []"
  shows "script (pop p) = script p" "tx (pop p) = tx p" "calls (pop p) = calls p + 3"
    "rd (pop p) = rd p @ [hd (rx p)]"
    "rx (pop p) = tl (rx p) @ snd (script p (calls p)) @ snd (script p (Suc (calls p))) @
                  snd (script p (Suc (Suc (calls p))))"
  using assms by (cases "rx p"; simp add: pop_def read_def available_def Let_def)+

lemma waitMsg_turn_pending:
  "rx p \<noteq> [] \<Longrightarrow>
   waitMsg_turn start time i buf p = (hd (rx p) = 0x7E, i + 1, buf[unat i := hd (rx p)], pop p)"
  by (cases "rx p") (simp_all add: waitMsg_turn_def waitMsg_body_def pop_def read_def available_def Let_def)

lemma waitMsg_loop_pending:
  "rx p = xs @ 0x7E # rest \<Longrightarrow> 0x7E \<notin> set xs \<Longrightarrow>
   \<exists>p' arr. waitMsg_loop (Suc (length xs) + n) start time i buf p =
             Some (i + of_nat (Suc (length xs)), store i (xs @ [0x7E]) buf, p') \<and>
           rd p' = rd p @ xs @ [0x7E] \<and> script p' = script p \<and> tx p' = tx p \<and> rx p' = rest @ arr"
proof (induction xs arbitrary: p i buf rest)
  case Nil
  then have ne: "rx p \<noteq> []" by simp
  show ?case
    using Nil waitMsg_turn_pending [OF ne] pop_simps [OF ne] by simp
next
  case (Cons x xs)
  then have ne: "rx p \<noteq> []" by simp
  have x: "x \<noteq> 0x7E" using Cons.prems by auto
  obtain arr where rx': "rx (pop p) = xs @ 0x7E # (rest @ arr)"
    using pop_simps(5) [OF ne] Cons.prems by simp
  from Cons.IH [OF rx', of "i + 1" "buf[unat i := x]"] Cons.prems obtain p' arr' where
    "waitMsg_loop (Suc (length xs) + n) start time (i + 1) (buf[unat i := x]) (pop p) =
       Some (i + 1 + of_nat (Suc (length xs)), store (i + 1) (xs @ [0x7E]) (buf[unat i := x]), p')"
    "rd p' = rd (pop p) @ xs @ [0x7E]" "script p' = script (pop p)" "tx p' = tx (pop p)"
    "rx p' = (rest @ arr) @ arr'"
    by auto
  then show ?case
    using waitMsg_turn_pending [OF ne, of start time i buf] pop_simps [OF ne] Cons.prems x
    by (intro exI [of _ p'] exI [of _ "arr @ arr'"]) (simp add: ac_simps)
qed

lemma waitMsg_pending:
  assumes "rx (serial s) = xs @ 0x7E # rest" "0x7E \<notin> set xs" "length xs < 255"
    "length (buffer s) = 256"
  shows "\<exists>p arr. waitMsg (Suc (length xs) + n) time s =
           Some (Inr (hd (xs @ [0x7E]) = 0xBB,
                      s\<lparr>buffer := xs @ 0x7E # drop (Suc (length xs)) (cleanBuffer (buffer s)),
                        serial := p\<rparr>)) \<and>
         rd p = rd (serial s) @ xs @ [0x7E] \<and> script p = script (serial s) \<and> tx p = tx (serial s) \<and>
         rx p = rest @ arr"
proof -
  define p0 where "p0 = advance (serial s)"
  define start where "start = fst (script (serial s) (calls (serial s)))"
  have rx0: "rx p0 = xs @ 0x7E # (rest @ snd (script (serial s) (calls (serial s))))"
    using assms(1) by (simp add: p0_def)
  from waitMsg_loop_pending [OF rx0 assms(2), of n start time 0 "cleanBuffer (buffer s)"]
  obtain p arr where loop:
    "waitMsg_loop (Suc (length xs) + n) start time 0 (cleanBuffer (buffer s)) p0 =
       Some (0 + of_nat (Suc (length xs)), store 0 (xs @ [0x7E]) (cleanBuffer (buffer s)), p)"
    and p: "rd p = rd p0 @ xs @ [0x7E]" "script p = script p0" "tx p = tx p0"
      "rx p = (rest @ snd (script (serial s) (calls (serial s)))) @ arr"
    by blast
  define buf where "buf = xs @ 0x7E # drop (Suc (length xs)) (cleanBuffer (buffer s))"
  have st: "store 0 (xs @ [0x7E]) (cleanBuffer (buffer s)) = buf"
    using store_0_short [of "xs @ [0x7E]" "cleanBuffer (buffer s)"] assms(3,4)
    by (simp add: length_cleanBuffer buf_def)
  have i0: "(of_nat (Suc (length xs)) :: u8) \<noteq> 0"
    using of_nat_u8_eq_0 [of "Suc (length xs)"] assms(3) by simp
  have ui: "unat (of_nat (Suc (length xs)) :: u8) = Suc (length xs)"
    using unat_of_nat_u8 [of "Suc (length xs)"] assms(3) by simp
  have b0: "buf ! 0 = hd (xs @ [0x7E])"
    by (cases xs) (simp_all add: buf_def)
  have bl: "buf ! length xs = 0x7E"
    by (simp add: buf_def nth_append)
  have "waitMsg (Suc (length xs) + n) time s =
          Some (Inr (hd (xs @ [0x7E]) = 0xBB, s\<lparr>buffer := buf, serial := p\<rparr>))"
    using loop i0 ui b0 bl unfolding st
    by (simp add: waitMsg_def millis_def p0_def start_def del: of_nat_Suc)
  then show ?thesis
    using p unfolding buf_def by (intro exI [of _ p] exI [of _ "snd (script (serial s) (calls (serial s))) @ arr"]) (simp add: p0_def)
qed

lemma driver_with_simps [simp]:
  "buffer (driver_with bs) = replicate 256 0x55" "serial (driver_with bs) = port_with bs"
  "cards (driver_with bs) = replicate 200 empty_card"
  by (simp_all add: driver_with_def)

lemma port_with_simps [simp]:
  "script (port_with bs) = silent" "calls (port_with bs) = 0" "rx (port_with bs) = bs"
  "rd (port_with bs) = []" "tx (port_with bs) = []"
  by (simp_all add: port_with_def)

lemma verdict_waitMsg:
  "waitMsg_loop n (fst (script (serial s) (calls (serial s)))) time 0 (cleanBuffer (buffer s))
     (advance (serial s)) = Some (i, buf, p) \<Longrightarrow>
   verdict (waitMsg n time s) =
     Some (if buf ! 0 = 0xBB then (if i = 0 then Inl BufferIndex else Inr (buf ! (unat i - 1) = 0x7E))
           else Inr False)"
  by (simp add: verdict_def waitMsg_def millis_def)

lemma waitMsg_pending_fuel:
  assumes "rx (serial s) = xs @ 0x7E # rest" "0x7E \<notin> set xs" "length xs < 255"
    "length (buffer s) = 256" "length xs < n"
  shows "\<exists>p arr. waitMsg n time s =
           Some (Inr (hd (xs @ [0x7E]) = 0xBB,
                      s\<lparr>buffer := xs @ 0x7E # drop (Suc (length xs)) (cleanBuffer (buffer s)),
                        serial := p\<rparr>)) \<and>
         rd p = rd (serial s) @ xs @ [0x7E] \<and> script p = script (serial s) \<and> tx p = tx (serial s) \<and>
         rx p = rest @ arr"
proof -
  from assms(5) have "n = Suc (length xs) + (n - Suc (length xs))" by simp
  then show ?thesis
    using waitMsg_pending [OF assms(1-4), of "n - Suc (length xs)" time] by simp
qed

lemma backlog_advance: "quiet_from (script p) K \<Longrightarrow> backlog (advance p) K = backlog p K"
proof (cases "calls p < K")
  case True
  then have "(\<Sum>k = calls p..<K. length (snd (script p k))) =
             length (snd (script p (calls p))) + (\<Sum>k = Suc (calls p)..<K. length (snd (script p k)))"
    by (simp add: sum.atLeast_Suc_lessThan)
  then show ?thesis by (simp add: backlog_def)
next
  case False
  moreover assume "quiet_from (script p) K"
  ultimately show ?thesis by (simp add: backlog_def quiet_from_def)
qed

lemma read_simps:
  assumes "rx p \<noteq> []"
  shows "script (snd (read p)) = script p" "calls (snd (read p)) = Suc (calls p)"
    "rd (snd (read p)) = rd p @ [hd (rx p)]" "tx (snd (read p)) = tx p"
    "rx (snd (read p)) = tl (rx p) @ snd (script p (calls p))" "fst (read p) = hd (rx p)"
  using assms by (cases "rx p"; simp add: read_def Let_def)+

lemma backlog_read:
  assumes "quiet_from (script p) K" "rx p \<noteq> []"
  shows "Suc (backlog (snd (read p)) K) = backlog p K"
proof -
  have "Suc (backlog (snd (read p)) K) = backlog (advance p) K"
    using assms(2) by (cases "rx p") (simp_all add: backlog_def read_simps [OF assms(2)])
  then show ?thesis by (simp add: backlog_advance [OF assms(1)])
qed

lemma no_terminator_read:
  assumes "no_terminator p" "rx p \<noteq> []"
  shows "no_terminator (snd (read p))" "fst (read p) \<noteq> 0x7E"
  using assms by (cases "rx p"; auto simp: no_terminator_def read_simps [OF assms(2)])+

text \<open>The turn of the loop, path by path.\<close>

lemma waitMsg_body_paths:
  "waitMsg_body i buf p =
     (let p1 = advance p in
      if rx p1 \<noteq> [] then (hd (rx p1) = 0x7E, i + 1, buf[unat i := hd (rx p1)], snd (read p1))
      else (False, i, buf, p1))"
proof (cases "rx (advance p) = []")
  case True
  then show ?thesis by (simp add: waitMsg_body_def available_def Let_def)
next
  case False
  have "read (advance p) = (hd (rx (advance p)), snd (read (advance p)))"
    using read_simps(6) [OF False] by (metis prod.collapse)
  then show ?thesis
    using False by (auto simp: waitMsg_body_def available_def Let_def split: prod.splits)
qed

lemma waitMsg_turn_paths:
  "waitMsg_turn start time i buf p =
     (let p1 = advance p in
      if rx p1 \<noteq> [] then waitMsg_body i buf p1
      else if fst (script p (Suc (calls p))) - start < time then waitMsg_body i buf (advance p1)
      else (True, i, buf, advance p1))"
  by (simp add: waitMsg_turn_def available_def millis_def Let_def)

lemma waitMsg_body_backlog:
  assumes "quiet_from (script p) K" "waitMsg_body i buf p = (stop, i', buf', p')"
  shows "length (rd p') + backlog p' K = length (rd p) + backlog p K"
proof (cases "rx (advance p) = []")
  case True
  then show ?thesis
    using assms backlog_advance [OF assms(1)] by (auto simp: waitMsg_body_paths Let_def)
next
  case False
  have q: "quiet_from (script (advance p)) K" using assms(1) by simp
  show ?thesis
    using assms(2) False backlog_read [OF q False] backlog_advance [OF assms(1)]
    by (auto simp: waitMsg_body_paths Let_def read_simps [OF False])
qed

lemma waitMsg_turn_backlog:
  assumes "quiet_from (script p) K" "waitMsg_turn start time i buf p = (stop, i', buf', p')"
  shows "length (rd p') + backlog p' K = length (rd p) + backlog p K"
proof -
  have q1: "quiet_from (script (advance p)) K" and q2: "quiet_from (script (advance (advance p))) K"
    using assms(1) by simp_all
  show ?thesis
    using assms(2) waitMsg_body_backlog [OF q1] waitMsg_body_backlog [OF q2]
      backlog_advance [OF assms(1)] backlog_advance [OF q1]
    by (auto simp: waitMsg_turn_paths Let_def split: if_splits)
qed

lemma waitMsg_loop_backlog:
  "quiet_from (script p) K \<Longrightarrow> waitMsg_loop n start time i buf p = Some (i', buf', p') \<Longrightarrow>
   length (rd p') + backlog p' K = length (rd p) + backlog p K"
proof (induction n arbitrary: i buf p)
  case 0
  then show ?case by simp
next
  case (Suc n)
  obtain stop i1 buf1 p1 where turn: "waitMsg_turn start time i buf p = (stop, i1, buf1, p1)"
    by (metis prod_cases4)
  have sc: "script p1 = script p" using waitMsg_turn_cases [OF turn] by simp
  show ?case
  proof (cases stop)
    case True
    then show ?thesis
      using Suc.prems turn waitMsg_turn_backlog [OF Suc.prems(1) turn] by simp
  next
    case False
    then have "waitMsg_loop n start time i1 buf1 p1 = Some (i', buf', p')"
      using Suc.prems turn by simp
    from Suc.IH [OF _ this] Suc.prems(1) sc waitMsg_turn_backlog [OF Suc.prems(1) turn]
    show ?thesis by simp
  qed
qed

lemma waitMsg_body_no_terminator:
  assumes "no_terminator p" "waitMsg_body i buf p = (stop, i', buf', p')"
  shows "no_terminator p' \<and> \<not> stop"
proof (cases "rx (advance p) = []")
  case True
  then show ?thesis
    using assms by (auto simp: waitMsg_body_paths Let_def no_terminator_advance)
next
  case False
  have nt: "no_terminator (advance p)" using assms(1) by (rule no_terminator_advance)
  show ?thesis
    using assms(2) False no_terminator_read [OF nt False]
    by (auto simp: waitMsg_body_paths Let_def read_simps [OF False])
qed

lemma waitMsg_turn_no_terminator:
  assumes "no_terminator p" "waitMsg_turn start time i buf p = (stop, i', buf', p')"
  shows "no_terminator p' \<and> (stop \<longrightarrow> rd p' = rd p)"
proof -
  have nt1: "no_terminator (advance p)" using assms(1) by (rule no_terminator_advance)
  have nt2: "no_terminator (advance (advance p))" using nt1 by (rule no_terminator_advance)
  consider (a) "waitMsg_body i buf (advance p) = (stop, i', buf', p')"
    | (b) "waitMsg_body i buf (advance (advance p)) = (stop, i', buf', p')"
    | (c) "p' = advance (advance p)"
    using assms(2) by (auto simp: waitMsg_turn_paths Let_def split: if_splits)
  then show ?thesis
  proof cases
    case a
    from waitMsg_body_no_terminator [OF nt1 a] show ?thesis by simp
  next
    case b
    from waitMsg_body_no_terminator [OF nt2 b] show ?thesis by simp
  next
    case c
    then show ?thesis using nt2 by simp
  qed
qed

lemma waitMsg_loop_no_terminator:
  "no_terminator p \<Longrightarrow> waitMsg_loop n start time i buf p = Some (i', buf', p') \<Longrightarrow>
   rd p' = rd p @ ns \<Longrightarrow> 0x7E \<notin> set ns"
proof (induction n arbitrary: i buf p ns)
  case 0
  then show ?case by simp
next
  case (Suc n)
  obtain stop i1 buf1 p1 where turn: "waitMsg_turn start time i buf p = (stop, i1, buf1, p1)"
    by (metis prod_cases4)
  note nt = waitMsg_turn_no_terminator [OF Suc.prems(1) turn]
  show ?case
  proof (cases stop)
    case True
    then show ?thesis using Suc.prems turn nt by simp
  next
    case False
    then have loop: "waitMsg_loop n start time i1 buf1 p1 = Some (i', buf', p')"
      using Suc.prems turn by simp
    from waitMsg_loop_sound [OF loop] obtain ns1 where ns1: "rd p' = rd p1 @ ns1" by blast
    from Suc.IH [OF _ loop ns1] nt have "0x7E \<notin> set ns1" by simp
    moreover from waitMsg_turn_cases [OF turn] False
    have "(\<exists>b. rd p1 = rd p @ [b] \<and> b \<noteq> 0x7E) \<or> rd p1 = rd p" by auto
    ultimately show ?thesis using ns1 Suc.prems(3) by auto
  qed
qed

lemma waitMsg_body_steps:
  assumes q: "quiet_from (script p) K" and body: "waitMsg_body i buf p = (stop, i', buf', p')"
  shows "(calls p' = calls p + 2 \<and> Suc (backlog p' K) = backlog p K) \<or>
         (calls p' = calls p + 1 \<and> backlog p' K = backlog p K \<and> \<not> stop)"
proof (cases "rx (advance p) = []")
  case True
  then show ?thesis
    using body backlog_advance [OF q] by (auto simp: waitMsg_body_paths Let_def)
next
  case False
  have q1: "quiet_from (script (advance p)) K" using q by simp
  show ?thesis
    using body False backlog_read [OF q1 False] backlog_advance [OF q]
    by (auto simp: waitMsg_body_paths Let_def read_simps [OF False])
qed

lemma waitMsg_turn_progress:
  assumes q: "quiet_from (script p) K"
    and l: "late_between (script p) start time K (K + 4 * B + 5)"
    and inv: "calls p + 4 * backlog p K \<le> K + 4 * B + 3" "backlog p K \<le> B"
    and turn: "waitMsg_turn start time i buf p = (False, i', buf', p')"
  shows "backlog p' K + (K - calls p') < backlog p K + (K - calls p) \<and>
         calls p' + 4 * backlog p' K \<le> K + 4 * B + 3 \<and> backlog p' K \<le> B"
proof -
  have q1: "quiet_from (script (advance p)) K" and q2: "quiet_from (script (advance (advance p))) K"
    using q by simp_all
  have b1: "backlog (advance p) K = backlog p K"
    and b2: "backlog (advance (advance p)) K = backlog p K"
    using backlog_advance [OF q] backlog_advance [OF q1] by simp_all
  consider (a) "rx (advance p) \<noteq> []" "waitMsg_body i buf (advance p) = (False, i', buf', p')"
    | (b) "fst (script p (Suc (calls p))) - start < time"
          "waitMsg_body i buf (advance (advance p)) = (False, i', buf', p')"
    using turn by (auto simp: waitMsg_turn_paths Let_def split: if_splits)
  then show ?thesis
  proof cases
    case a
    have ne: "rx (advance (advance p)) \<noteq> []" using a(1) by auto
    have "calls p' = calls p + 3 \<and> Suc (backlog p' K) = backlog p K"
      using a(2) ne backlog_read [OF q2 ne] b2
      by (auto simp: waitMsg_body_paths Let_def read_simps [OF ne])
    then show ?thesis using inv by auto
  next
    case b
    have early: "Suc (calls p) < K"
    proof (rule ccontr)
      assume "\<not> Suc (calls p) < K"
      then have "K \<le> Suc (calls p) \<and> Suc (calls p) < K + 4 * B + 5" using inv by simp
      then have "time \<le> fst (script p (Suc (calls p))) - start"
        using l by (simp add: late_between_def)
      then show False using b(1) by simp
    qed
    from waitMsg_body_steps [OF q2 b(2)]
    show ?thesis using early inv b2 by auto
  qed
qed

lemma waitMsg_loop_terminates:
  "quiet_from (script p) K \<Longrightarrow> late_between (script p) start time K (K + 4 * B + 5) \<Longrightarrow>
   calls p + 4 * backlog p K \<le> K + 4 * B + 3 \<Longrightarrow> backlog p K \<le> B \<Longrightarrow>
   backlog p K + (K - calls p) < n \<Longrightarrow>
   \<exists>r. waitMsg_loop n start time i buf p = Some r"
proof (induction n arbitrary: i buf p)
  case 0
  then show ?case by simp
next
  case (Suc n)
  obtain stop i1 buf1 p1 where turn: "waitMsg_turn start time i buf p = (stop, i1, buf1, p1)"
    by (metis prod_cases4)
  show ?case
  proof (cases stop)
    case True
    then show ?thesis using turn by simp
  next
    case False
    have sc: "script p1 = script p" using waitMsg_turn_cases [OF turn] by simp
    have turn': "waitMsg_turn start time i buf p = (False, i1, buf1, p1)"
      using turn False by simp
    from waitMsg_turn_progress [OF Suc.prems(1-4) turn']
    have "backlog p1 K + (K - calls p1) < n" "calls p1 + 4 * backlog p1 K \<le> K + 4 * B + 3"
      "backlog p1 K \<le> B"
      using Suc.prems(5) by simp_all
    from Suc.IH [OF _ _ this(2,3,1), of i1 buf1] Suc.prems(1,2) sc
    show ?thesis using turn False by simp
  qed
qed


lemma and_ff [simp]: "(x :: u8) AND 0xFF = x"
proof -
  have "(0xFF :: u8) = - 1" by simp
  then show ?thesis by (simp only: and.right_neutral word_bw_comms bit.conj_one_right)
qed

lemma drop_bit_8_u8 [simp]: "drop_bit 8 (ucast (w :: u8) :: u32) = 0"
  by (rule bit_word_eqI) (auto simp: bit_simps dest: bit_imp_le_length)

lemma sum_bytes_sum_list: "sum_bytes buf lo hi = sum_list (map (\<lambda>k. buf ! k) [lo..<hi])"
proof -
  have "fold (\<lambda>i check. check + buf ! i) xs a = a + sum_list (map (\<lambda>k. buf ! k) xs)" for xs a
    by (induction xs arbitrary: a) (simp_all add: ac_simps)
  then show ?thesis by (simp add: sum_bytes_def)
qed

lemma sum_bytes_cong:
  "(\<And>k. lo \<le> k \<Longrightarrow> k < hi \<Longrightarrow> a ! k = b ! k) \<Longrightarrow> sum_bytes a lo hi = sum_bytes b lo hi"
proof -
  assume "\<And>k. lo \<le> k \<Longrightarrow> k < hi \<Longrightarrow> a ! k = b ! k"
  then have "map (\<lambda>k. a ! k) [lo..<hi] = map (\<lambda>k. b ! k) [lo..<hi]"
    by (intro map_cong) auto
  then show ?thesis by (simp only: sum_bytes_sum_list)
qed

lemma unat_sum_list_u8:
  "unat (sum_list ws :: u8) = sum_list (map unat ws) mod 256"
  by (induction ws) (simp_all add: unat_word_ariths mod_simps)

lemma unat_sum_bytes:
  "unat (sum_bytes buf lo hi) = (\<Sum>k = lo..<hi. unat (buf ! k)) mod 256"
proof -
  have "unat (sum_bytes buf lo hi) = sum_list (map unat (map (\<lambda>k. buf ! k) [lo..<hi])) mod 256"
    by (simp only: sum_bytes_sum_list unat_sum_list_u8)
  also have "sum_list (map unat (map (\<lambda>k. buf ! k) [lo..<hi])) = (\<Sum>k = lo..<hi. unat (buf ! k))"
    by (simp add: interv_sum_list_conv_sum_set_nat comp_def)
  finally show ?thesis .
qed

lemma memcpy_buffer_Inr:
  "length src \<le> 256 \<Longrightarrow> length buf = 256 \<Longrightarrow>
   \<exists>b. memcpy_buffer buf src = Inr b \<and> length b = 256 \<and> take (length src) b = src"
  by (simp add: memcpy_buffer_def)

lemma setTxPower_Inr:
  assumes "setTxPower fuel c s db = Some (Inr (ok, s'))"
    and "setTxPower_frame (SET_TX_POWER c) (buffer s) db = Inr b"
  shows "\<exists>ok1. waitMsg fuel waitMsg_default
            (sendCMD (s\<lparr>buffer := b\<rparr>) (take (length (SET_TX_POWER c)) b)) = Some (Inr (ok1, s'))"
proof -
  let ?w = "waitMsg fuel waitMsg_default
              (sendCMD (s\<lparr>buffer := b\<rparr>) (take (length (SET_TX_POWER c)) b))"
  show ?thesis
  proof (cases ?w)
    case None
    then show ?thesis using assms by (simp add: setTxPower_def)
  next
    case (Some r)
    show ?thesis
    proof (cases r)
      case (Inl e)
      then show ?thesis using assms Some by (simp add: setTxPower_def)
    next
      case (Inr x)
      obtain ok1 s1 where x: "x = (ok1, s1)" by (cases x)
      show ?thesis using assms Some Inr x by (cases ok1) (auto simp: setTxPower_def)
    qed
  qed
qed

lemma split_2600:
  "ucast (drop_bit 8 (2600 :: u16) AND 0xFF) = (0x0A :: u8)" "ucast ((2600 :: u16) AND 0xFF) = (0x28 :: u8)"
  by simp_all

lemma tabs_simps [simp]:
  "POLLING_ONCE_CMD tabs = [0xBB, 0x00, 0x22, 0x00, 0x00, 0x22, 0x7E]"
  "POLLING_MULTIPLE_CMD tabs = [0xBB, 0x00, 0x27, 0x00, 0x03, 0x22, 0x27, 0x10, 0x83, 0x7E]"
  "READ_STORAGE_CMD tabs = [0xBB, 0x00, 0x39, 0x00, 0x09, 0x00, 0x00, 0xFF, 0xFF, 0x03, 0x00,
                                0x00, 0x00, 0x02, 0x45, 0x7E]"
  "READ_STORAGE_ERROR tabs = [0xBB, 0x01, 0xFF, 0x00, 0x01, 0x09, 0x0A, 0x7E]"
  "WRITE_STORAGE_CMD tabs = [0xBB, 0x00, 0x49, 0x00, 0x0D, 0x00, 0x00, 0xFF, 0xFF, 0x03, 0x00,
                                 0x00, 0x00, 0x02, 0x12, 0x34, 0x56, 0x78, 0x6D, 0x7E]"
  "WRITE_STORAGE_ERROR tabs = [0xBB, 0x01, 0xFF, 0x00, 0x01, 0x10, 0x0A, 0x7E]"
  "SET_TX_POWER tabs = [0xBB, 0x00, 0xB6, 0x00, 0x02, 0x07, 0xD0, 0x8F, 0x7E]"
  by (simp_all add: tabs_def)

lemma waitMsg_pending_ex:
  assumes "rx (serial s) = xs @ 0x7E # rest" "0x7E \<notin> set xs" "length xs < 255"
    "length (buffer s) = 256" "length xs < n" "k = Suc (length xs)"
  shows "\<exists>s'. waitMsg n time s = Some (Inr (hd (xs @ [0x7E]) = 0xBB, s')) \<and>
           take k (buffer s') = xs @ [0x7E] \<and> length (buffer s') = 256 \<and>
           drop k (buffer s') = drop k (cleanBuffer (buffer s)) \<and>
           cards s' = cards s \<and> rd (serial s') = rd (serial s) @ xs @ [0x7E] \<and>
           script (serial s') = script (serial s) \<and> tx (serial s') = tx (serial s) \<and>
           (\<exists>arr. rx (serial s') = rest @ arr)"
proof -
  from waitMsg_pending_fuel [OF assms(1-5), of time] obtain p arr where
    w: "waitMsg n time s =
          Some (Inr (hd (xs @ [0x7E]) = 0xBB,
                     s\<lparr>buffer := xs @ 0x7E # drop (Suc (length xs)) (cleanBuffer (buffer s)),
                       serial := p\<rparr>))" and
    p: "rd p = rd (serial s) @ xs @ [0x7E]" "script p = script (serial s)" "tx p = tx (serial s)"
       "rx p = rest @ arr"
    by blast
  show ?thesis
    using p assms(3,4,6) unfolding w
    by (intro exI [of _ "s\<lparr>buffer := xs @ 0x7E # drop (Suc (length xs)) (cleanBuffer (buffer s)),
                       serial := p\<rparr>"]) (simp add: length_cleanBuffer)
qed



lemma drain_Some:
  "drain n p = Some p' \<Longrightarrow> script p' = script p \<and> tx p' = tx p"
proof (induction n arbitrary: p)
  case 0
  then show ?case by simp
next
  case (Suc n)
  show ?case
  proof (cases "rx (advance p) = []")
    case True
    then show ?thesis using Suc.prems by (auto simp: available_def)
  next
    case False
    then have "drain n (snd (read (advance p))) = Some p'"
      using Suc.prems by (simp add: available_def)
    from Suc.IH [OF this] show ?thesis by (simp add: read_simps [OF False])
  qed
qed

lemma drain_terminates:
  "quiet_from (script p) K \<Longrightarrow> backlog p K < n \<Longrightarrow> \<exists>p'. drain n p = Some p'"
proof (induction n arbitrary: p)
  case 0
  then show ?case by simp
next
  case (Suc n)
  show ?case
  proof (cases "rx (advance p) = []")
    case True
    then show ?thesis by (simp add: available_def)
  next
    case False
    have q: "quiet_from (script (advance p)) K" using Suc.prems(1) by simp
    have "Suc (backlog (snd (read (advance p))) K) = backlog p K"
      using backlog_read [OF q False] backlog_advance [OF Suc.prems(1)] by simp
    then have "backlog (snd (read (advance p))) K < n" using Suc.prems(2) by simp
    moreover have "quiet_from (script (snd (read (advance p)))) K"
      using Suc.prems(1) by (simp add: read_simps [OF False])
    ultimately have "\<exists>p'. drain n (snd (read (advance p))) = Some p'"
      by (intro Suc.IH) simp_all
    then show ?thesis using False by (simp add: available_def)
  qed
qed

lemma setRegion_frame_eq:
  "setRegion_frame r = [0xBB, 0x00, 0x07, 0x00, 0x01, r, 0x08 + r, 0x7E]"
  by (simp add: setRegion_frame_def sum_bytes_def Let_def upt_rec)

lemma filterCardInfo_from_iff:
  "filterCardInfo_from cs e is = (\<forall>i\<in>set is. epc_str (cs ! i) \<noteq> e)"
  by (induction "is") auto

lemma filterCardInfo_iff: "filterCardInfo cs e = (\<forall>i<200. epc_str (cs ! i) \<noteq> e)"
  by (auto simp: filterCardInfo_def filterCardInfo_from_iff)

lemma saveCardInfo_eq:
  "saveCardInfo s k =
     (if \<not> filterCardInfo (cards s) (epc_of (buffer s)) then Inr (False, s)
      else if \<not> k < 200 then Inl CardIndex
      else Inr (True, s\<lparr>cards := (cards s)[k := card_of (buffer s)]\<rparr>))"
  by (simp add: saveCardInfo_def epc_of_def card_of_def Let_def)

lemma epc_of_cong:
  "map (\<lambda>i. a ! i) [8..<20] = map (\<lambda>i. b ! i) [8..<20] \<Longrightarrow> epc_of a = epc_of b"
proof -
  assume "map (\<lambda>i. a ! i) [8..<20] = map (\<lambda>i. b ! i) [8..<20]"
  then have "\<forall>i\<in>set [8..<20]. a ! i = b ! i" by (simp only: map_eq_conv)
  then have "fold (\<lambda>i e. e @ hex2str (a ! i)) [8..<20] [] = fold (\<lambda>i e. e @ hex2str (b ! i)) [8..<20] []"
    by (intro fold_cong) auto
  then show ?thesis by (simp only: epc_of_def)
qed

lemma hex2str_nonempty: "hex2str b \<noteq> []"
  by (simp add: hex2str_def)

lemma epc_of_nonempty: "epc_of buf \<noteq> []"
proof -
  have "[8..<20] = [8..<19] @ [19]" by (simp add: upt_rec)
  then have "epc_of buf = fold (\<lambda>i e. e @ hex2str (buf ! i)) [8..<19] [] @ hex2str (buf ! 19)"
    by (simp only: epc_of_def fold_append comp_apply fold.simps id_apply)
  then show ?thesis by (simp add: hex2str_nonempty)
qed

lemma cleanCardsBuffer_fold:
  "n \<le> length cs \<Longrightarrow>
   fold (\<lambda>i c. c[i := empty_card]) [0..<n] cs = replicate n empty_card @ drop n cs"
proof (induction n)
  case 0
  then show ?case by simp
next
  case (Suc n)
  then have "fold (\<lambda>i c. c[i := empty_card]) [0..<Suc n] cs =
             (replicate n empty_card @ drop n cs)[n := empty_card]"
    by simp
  also have "\<dots> = replicate n empty_card @ (drop n cs)[0 := empty_card]"
    by (simp add: list_update_append)
  also have "drop n cs = cs ! n # drop (Suc n) cs"
    using Suc.prems by (simp add: Cons_nth_drop_Suc)
  finally show ?case by (simp add: replicate_append_same)
qed

lemma cleanCardsBuffer_eq: "length cs = 200 \<Longrightarrow> cleanCardsBuffer cs = replicate 200 empty_card"
  by (simp add: cleanCardsBuffer_def cleanCardsBuffer_fold)

lemma waitMsg_Inl: "waitMsg n time s = Some (Inl e) \<Longrightarrow> e = BufferIndex"
  by (auto simp: waitMsg_def millis_def split: option.splits if_splits)

lemma waitMsg_Inr_wf:
  assumes "waitMsg n time s = Some (Inr (ok, s'))" and "length (buffer s) = 256"
  shows "length (buffer s') = 256 \<and> cards s' = cards s"
proof -
  from waitMsg_Inr [OF assms] obtain ns where
    "buffer s' = store 0 ns (cleanBuffer (buffer s))" "cards s' = cards s" by blast
  then show ?thesis using assms(2) by (simp add: length_cleanBuffer)
qed

lemma saveCardInfo_cases:
  assumes "k < 200"
  shows "saveCardInfo s k = Inr (False, s) \<or>
         saveCardInfo s k = Inr (True, s\<lparr>cards := (cards s)[k := card_of (buffer s)]\<rparr>)"
  using assms by (simp add: saveCardInfo_eq)

lemma u8_count_step:
  assumes "count < (200 :: u8)"
  shows "unat count < 200" "unat (count + 1) = Suc (unat count)" "count + 1 \<noteq> 200 \<or> unat count = 199"
proof -
  show c: "unat count < 200" using assms by (simp add: word_less_nat_alt)
  then show s: "unat (count + 1) = Suc (unat count)" using unat_u8_Suc [of count] by simp
  show "count + 1 \<noteq> 200 \<or> unat count = 199"
  proof (cases "count + 1 = 200")
    case True
    then have "unat (count + 1) = 200" by simp
    then show ?thesis using s by simp
  next
    case False
    then show ?thesis by simp
  qed
qed

lemma pollingOnce_loop_bound:
  "pollingOnce_loop fuel count s = Some r \<Longrightarrow> unat count \<le> 200 \<Longrightarrow> length (buffer s) = 256 \<Longrightarrow>
   r \<noteq> Inl CardIndex \<and>
   (\<forall>n s'. r = Inr (n, s') \<longrightarrow>
      unat count \<le> unat n \<and> unat n \<le> 200 \<and> (count = 200 \<longrightarrow> n = 200 \<and> cards s' = cards s))"
proof (induction fuel arbitrary: count s)
  case 0
  then show ?case by simp
next
  case (Suc fuel)
  show ?case
  proof (cases "waitMsg fuel waitMsg_default s")
    case None
    then show ?thesis using Suc.prems by simp
  next
    case (Some w)
    show ?thesis
    proof (cases w)
      case (Inl e)
      then have "r = Inl BufferIndex" using Suc.prems Some waitMsg_Inl [of fuel waitMsg_default s e] by simp
      then show ?thesis by simp
    next
      case (Inr x)
      obtain ok s1 where x: "x = (ok, s1)" by (cases x)
      have w: "waitMsg fuel waitMsg_default s = Some (Inr (ok, s1))" using Some Inr x by simp
      from waitMsg_Inr_wf [OF w Suc.prems(3)] have l1: "length (buffer s1) = 256" and c1: "cards s1 = cards s"
        by simp_all
      show ?thesis
      proof (cases ok)
        case False
        then have "r = Inr (count, s1)" using Suc.prems w by simp
        then show ?thesis using Suc.prems(2) c1 by simp
      next
        case True
        note ok = True
        show ?thesis
        proof (cases "buffer s1 ! 23 = 0x7E")
          case False
          then have "pollingOnce_loop fuel count s1 = Some r" using Suc.prems w ok by simp
          from Suc.IH [OF this Suc.prems(2) l1] c1 show ?thesis by simp
        next
          case True
          note frame = True
          show ?thesis
          proof (cases "count < 200")
            case False
            then have r: "r = Inr (200, s1)" using Suc.prems w ok frame by simp
            from False Suc.prems(2) have "unat count = 200"
              by (simp add: word_less_nat_alt)
            then have "of_nat (unat count) = (of_nat 200 :: u8)" by simp
            then have "count = 200" by simp
            then show ?thesis using r c1 by simp
          next
            case True
            note lt = u8_count_step [OF True]
            have ne: "count \<noteq> 200" using True by auto
            from saveCardInfo_cases [OF lt(1), of s1]
            show ?thesis
            proof
              assume sv: "saveCardInfo s1 (unat count) = Inr (False, s1)"
              then have "pollingOnce_loop fuel count s1 = Some r"
                using Suc.prems w ok frame True by simp
              from Suc.IH [OF this Suc.prems(2) l1] ne show ?thesis by simp
            next
              let ?s2 = "s1\<lparr>cards := (cards s1)[unat count := card_of (buffer s1)]\<rparr>"
              assume sv: "saveCardInfo s1 (unat count) = Inr (True, ?s2)"
              then have loop: "pollingOnce_loop fuel (count + 1) ?s2 = Some r"
                using Suc.prems w ok frame True by simp
              have "unat (count + 1) \<le> 200" using lt by simp
              from Suc.IH [OF loop this] l1 lt ne show ?thesis by auto
            qed
          qed
        qed
      qed
    qed
  qed
qed

lemma pollingMultiple_loop_bound:
  "pollingMultiple_loop fuel count s = Some r \<Longrightarrow> unat count \<le> 200 \<Longrightarrow> length (buffer s) = 256 \<Longrightarrow>
   r \<noteq> Inl CardIndex \<and>
   (\<forall>n s'. r = Inr (n, s') \<longrightarrow>
      unat count \<le> unat n \<and> unat n \<le> 200 \<and> (count = 200 \<longrightarrow> n = 200 \<and> cards s' = cards s))"
proof (induction fuel arbitrary: count s)
  case 0
  then show ?case by simp
next
  case (Suc fuel)
  show ?case
  proof (cases "waitMsg fuel waitMsg_default s")
    case None
    then show ?thesis using Suc.prems by simp
  next
    case (Some w)
    show ?thesis
    proof (cases w)
      case (Inl e)
      then have "r = Inl BufferIndex" using Suc.prems Some waitMsg_Inl [of fuel waitMsg_default s e] by simp
      then show ?thesis by simp
    next
      case (Inr x)
      obtain ok s1 where x: "x = (ok, s1)" by (cases x)
      have w: "waitMsg fuel waitMsg_default s = Some (Inr (ok, s1))" using Some Inr x by simp
      from waitMsg_Inr_wf [OF w Suc.prems(3)] have l1: "length (buffer s1) = 256" and c1: "cards s1 = cards s"
        by simp_all
      show ?thesis
      proof (cases ok)
        case False
        then have "r = Inr (count, s1)" using Suc.prems w by simp
        then show ?thesis using Suc.prems(2) c1 by simp
      next
        case True
        note ok = True
        show ?thesis
        proof (cases "buffer s1 ! 23 = 0x7E")
          case False
          then have "pollingMultiple_loop fuel count s1 = Some r" using Suc.prems w ok by simp
          from Suc.IH [OF this Suc.prems(2) l1] c1 show ?thesis by simp
        next
          case True
          note frame = True
          show ?thesis
          proof (cases "count < 200")
            case False
            then have r: "r = Inr (count, s1)" using Suc.prems w ok frame by simp
            from False Suc.prems(2) have "unat count = 200"
              by (simp add: word_less_nat_alt)
            then have "of_nat (unat count) = (of_nat 200 :: u8)" by simp
            then have "count = 200" by simp
            then show ?thesis using r c1 by simp
          next
            case True
            note lt = u8_count_step [OF True]
            have ne: "count \<noteq> 200" using True by auto
            from saveCardInfo_cases [OF lt(1), of s1]
            show ?thesis
            proof
              assume sv: "saveCardInfo s1 (unat count) = Inr (False, s1)"
              then have "pollingMultiple_loop fuel count s1 = Some r"
                using Suc.prems w ok frame True by simp
              from Suc.IH [OF this Suc.prems(2) l1] ne show ?thesis by simp
            next
              let ?s2 = "s1\<lparr>cards := (cards s1)[unat count := card_of (buffer s1)]\<rparr>"
              assume sv: "saveCardInfo s1 (unat count) = Inr (True, ?s2)"
              then have loop: "pollingMultiple_loop fuel (count + 1) ?s2 = Some r"
                using Suc.prems w ok frame True by simp
              have "unat (count + 1) \<le> 200" using lt by simp
              from Suc.IH [OF loop this] l1 lt ne show ?thesis by auto
            qed
          qed
        qed
      qed
    qed
  qed
qed

lemma pollingMultiple_frame_Inr:
  "pollingMultiple_frame tmpl buf pcount = Inr b \<Longrightarrow> length buf = 256 \<Longrightarrow> length b = 256"
  by (auto simp: pollingMultiple_frame_def memcpy_buffer_def Let_def split: if_splits)

lemma waitMsg_quiet:
  assumes wf: "length (buffer s) = 256"
    and nt: "no_terminator (serial s)"
    and q: "quiet_from (script (serial s)) K"
    and c: "calls (serial s) \<le> K"
    and l: "late_between (script (serial s)) (fst (script (serial s) (calls (serial s)))) time
              K (K + 4 * backlog (serial s) K + 5)"
    and small: "backlog (serial s) K < 256"
    and fuel: "backlog (serial s) K + (K - calls (serial s)) < n"
  shows "\<exists>s'. waitMsg n time s = Some (Inr (False, s')) \<and>
              time \<le> fst (script (serial s) (calls (serial s') - 1)) -
                      fst (script (serial s) (calls (serial s)))"
proof -
  define p0 where "p0 = advance (serial s)"
  define start where "start = fst (script (serial s) (calls (serial s)))"
  define B where "B = backlog (serial s) K"
  define cb where "cb = cleanBuffer (buffer s)"
  have sc0: "script p0 = script (serial s)" by (simp add: p0_def)
  have b0: "backlog p0 K = B"
    using backlog_advance [OF q] by (simp add: p0_def B_def)
  have "\<exists>r. waitMsg_loop n start time 0 cb p0 = Some r"
  proof (rule waitMsg_loop_terminates [where K = K and B = B])
    show "quiet_from (script p0) K" using q by (simp add: sc0)
    show "late_between (script p0) start time K (K + 4 * B + 5)"
      using l by (simp add: sc0 start_def B_def)
    have "calls p0 = Suc (calls (serial s))" by (simp add: p0_def)
    then show "calls p0 + 4 * backlog p0 K \<le> K + 4 * B + 3" using c by (simp add: b0)
    show "backlog p0 K \<le> B" by (simp add: b0)
    have "calls p0 = Suc (calls (serial s))" by (simp add: p0_def)
    then show "backlog p0 K + (K - calls p0) < n" using fuel unfolding b0 B_def by simp
  qed
  then obtain i buf p where loop: "waitMsg_loop n start time 0 cb p0 = Some (i, buf, p)"
    by (metis prod_cases3)
  from waitMsg_loop_sound [OF loop] obtain ns where
    rd: "rd p = rd p0 @ ns" and i: "i = of_nat (length ns)" and buf: "buf = store 0 ns cb" and
    ex: "(ns \<noteq> [] \<and> last ns = 0x7E) \<or> (0x7E \<notin> set ns \<and> time \<le> fst (script p0 (calls p - 1)) - start)"
    by auto
  have nt0: "no_terminator p0" using nt unfolding p0_def by (rule no_terminator_advance)
  have no7e: "0x7E \<notin> set ns" using waitMsg_loop_no_terminator [OF nt0 loop rd] .
  then have lastne: "ns \<noteq> [] \<Longrightarrow> last ns \<noteq> 0x7E" by (metis last_in_set)
  with ex have late: "time \<le> fst (script p0 (calls p - 1)) - start" by blast
  have "length (rd p) + backlog p K = length (rd p0) + backlog p0 K"
    using waitMsg_loop_backlog [OF _ loop] q by (simp add: sc0)
  then have short: "length ns < 256" using rd small by (simp add: b0 B_def)
  have lcb: "length cb = 256" and cb0: "cb ! 0 = 0"
    using wf by (simp_all add: cb_def length_cleanBuffer cleanBuffer_0)
  define s' where "s' = s\<lparr>buffer := ns @ drop (length ns) cb, serial := p\<rparr>"
  have "(if buf ! 0 = 0xBB then
           (if i = 0 then Inl BufferIndex
            else Inr (buf ! (unat i - 1) = 0x7E, s\<lparr>buffer := buf, serial := p\<rparr>))
         else Inr (False, s\<lparr>buffer := buf, serial := p\<rparr>)) =
        Inr (ns \<noteq> [] \<and> hd ns = 0xBB \<and> last ns = 0x7E, s')"
    unfolding buf i s'_def
    using verdict_short [OF short lcb cb0, of "\<lambda>b. s\<lparr>buffer := b, serial := p\<rparr>",
        unfolded Let_def] .
  then have "waitMsg n time s = Some (Inr (ns \<noteq> [] \<and> hd ns = 0xBB \<and> last ns = 0x7E, s'))"
    using loop by (simp add: waitMsg_def millis_def p0_def start_def cb_def)
  then have "waitMsg n time s = Some (Inr (False, s'))"
    using lastne by auto
  moreover have "time \<le> fst (script (serial s) (calls (serial s') - 1)) -
                       fst (script (serial s) (calls (serial s)))"
    using late by (simp add: s'_def sc0 start_def)
  ultimately show ?thesis by blast
qed
lemma waitMsg_backlog:
  assumes "waitMsg n time s = Some (Inr (ok, s'))" and "quiet_from (script (serial s)) K"
  shows "length (rd (serial s')) + backlog (serial s') K =
         length (rd (serial s)) + backlog (serial s) K"
proof -
  from assms(1) obtain i buf p where
    loop: "waitMsg_loop n (fst (script (serial s) (calls (serial s)))) time 0
             (cleanBuffer (buffer s)) (advance (serial s)) = Some (i, buf, p)" and
    s': "s' = s\<lparr>buffer := buf, serial := p\<rparr>"
    by (auto simp: waitMsg_def millis_def split: option.splits if_splits)
  have "quiet_from (script (advance (serial s))) K" using assms(2) by simp
  from waitMsg_loop_backlog [OF this loop] backlog_advance [OF assms(2)]
  show ?thesis by (simp add: s')
qed

lemma backlog_0: "backlog p 0 = length (rx p)"
  by (simp add: backlog_def)

lemma waitMsg_pending_quiet:
  assumes "rx (serial s) = xs @ 0x7E # rest" "0x7E \<notin> set xs" "length xs < 255"
    "length (buffer s) = 256" "length xs < n" "k = Suc (length xs)"
    "quiet_from (script (serial s)) 0"
  shows "\<exists>s'. waitMsg n time s = Some (Inr (hd (xs @ [0x7E]) = 0xBB, s')) \<and>
           take k (buffer s') = xs @ [0x7E] \<and> length (buffer s') = 256 \<and>
           cards s' = cards s \<and> script (serial s') = script (serial s) \<and>
           tx (serial s') = tx (serial s) \<and> rx (serial s') = rest"
proof -
  from waitMsg_pending_ex [OF assms(1-6), of time] obtain s' arr where
    w: "waitMsg n time s = Some (Inr (hd (xs @ [0x7E]) = 0xBB, s'))" and
    f: "take k (buffer s') = xs @ [0x7E]" "length (buffer s') = 256" "cards s' = cards s"
       "script (serial s') = script (serial s)" "tx (serial s') = tx (serial s)" and
    rd: "rd (serial s') = rd (serial s) @ xs @ [0x7E]" and rx: "rx (serial s') = rest @ arr"
    by blast
  from waitMsg_backlog [OF w assms(7)] have "arr = []"
    by (simp add: backlog_0 rd rx assms(1))
  with w f rx show ?thesis by auto
qed

lemma late_between_silent: "late_between silent (fst (silent c)) 500 (c + 5) (c + 10)"
proof -
  have "(500 :: u32) \<le> of_nat (100 * k) - of_nat (100 * c)" if "c + 5 \<le> k" "k < c + 10" for k
  proof -
    have "(of_nat (100 * k) :: u32) - of_nat (100 * c) = of_nat (100 * k - 100 * c)"
      using that by (subst of_nat_diff) simp_all
    moreover have "unat (of_nat (100 * k - 100 * c) :: u32) = 100 * k - 100 * c"
      using that by (subst unat_of_nat) simp
    ultimately show ?thesis using that by (simp only: word_le_nat_alt) simp
  qed
  then show ?thesis by (simp add: late_between_def silent_def)
qed

lemma waitMsg_silent_false:
  assumes "script (serial s) = silent" and "rx (serial s) = []" and "length (buffer s) = 256"
    and "5 < n"
  shows "\<exists>s'. waitMsg n 500 s = Some (Inr (False, s')) \<and> cards s' = cards s \<and>
              tx (serial s') = tx (serial s)"
proof -
  define c where "c = calls (serial s)"
  have bl: "backlog (serial s) (c + 5) = 0"
    by (simp add: backlog_def assms(1,2) silent_def)
  have "\<exists>s'. waitMsg n 500 s = Some (Inr (False, s')) \<and>
          500 \<le> fst (script (serial s) (calls (serial s') - 1)) -
                 fst (script (serial s) (calls (serial s)))"
  proof (rule waitMsg_quiet [where K = "c + 5"])
    show "length (buffer s) = 256" by (rule assms(3))
    show "no_terminator (serial s)" by (simp add: no_terminator_def assms(1,2) silent_def)
    show "quiet_from (script (serial s)) (c + 5)" by (simp add: quiet_from_def assms(1) silent_def)
    show "calls (serial s) \<le> c + 5" by (simp add: c_def)
    show "late_between (script (serial s)) (fst (script (serial s) (calls (serial s)))) 500
            (c + 5) (c + 5 + 4 * backlog (serial s) (c + 5) + 5)"
      using late_between_silent [of c] unfolding bl by (simp add: assms(1) c_def ac_simps)
    show "backlog (serial s) (c + 5) < 256" by (simp add: bl)
    show "backlog (serial s) (c + 5) + (c + 5 - calls (serial s)) < n"
      using assms(4) unfolding bl by (simp add: c_def)
  qed
  then obtain s' where w: "waitMsg n 500 s = Some (Inr (False, s'))" by blast
  from waitMsg_Inr [OF w assms(3)] have "cards s' = cards s" "tx (serial s') = tx (serial s)"
    by blast+
  with w show ?thesis by blast
qed

lemma pollingOnce_loop_step:
  assumes "n = Suc m" and "waitMsg m waitMsg_default s = Some (Inr (True, s1))"
    and "buffer s1 ! 23 = 0x7E" and "count < 200" and "saveCardInfo s1 (unat count) = Inr (ins, s2)"
  shows "pollingOnce_loop n count s = pollingOnce_loop m (if ins then count + 1 else count) s2"
  using assms by (cases ins) simp_all

lemma pollingOnce_loop_end:
  assumes "n = Suc m" and "waitMsg m waitMsg_default s = Some (Inr (False, s1))"
  shows "pollingOnce_loop n count s = Some (Inr (count, s1))"
  using assms by simp

lemma pollingOnce_loop_full:
  assumes "n = Suc m" and "waitMsg m waitMsg_default s = Some (Inr (True, s1))"
    and "buffer s1 ! 23 = 0x7E" and "\<not> count < 200"
  shows "pollingOnce_loop n count s = Some (Inr (200, s1))"
  using assms by simp

lemma take_24_nth:
  assumes "take 24 b = f"
  shows "b ! 5 = f ! 5" "b ! 23 = f ! 23" "map (\<lambda>i. b ! i) [8..<20] = map (\<lambda>i. f ! i) [8..<20]"
proof -
  have n: "b ! i = f ! i" if "i < 24" for i
    using that assms by (metis nth_take)
  show "b ! 5 = f ! 5" "b ! 23 = f ! 23" by (simp_all add: n)
  show "map (\<lambda>i. b ! i) [8..<20] = map (\<lambda>i. f ! i) [8..<20]"
  proof (rule map_cong [OF refl])
    fix x :: nat
    assume "x \<in> set [8..<20]"
    then have "8 \<le> x \<and> x < 20" by (simp only: set_upt atLeastLessThan_iff)
    then have "x < 24" by simp
    then show "b ! x = f ! x" by (rule n)
  qed
qed

lemma tag_frame_epc: "epc_of (tag_frame r) = epc_of (tag_frame r')"
  by (rule epc_of_cong) (simp add: tag_frame_def upt_rec)

lemma waitMsg_tag_frame:
  assumes "rx (serial s) = tag_frame r @ rest" and "r \<noteq> 0x7E" and "length (buffer s) = 256"
    and "23 < n" and "script (serial s) = silent"
  shows "\<exists>s'. waitMsg n waitMsg_default s = Some (Inr (True, s')) \<and> take 24 (buffer s') = tag_frame r \<and>
              length (buffer s') = 256 \<and> cards s' = cards s \<and> script (serial s') = silent \<and>
              tx (serial s') = tx (serial s) \<and> rx (serial s') = rest"
proof -
  let ?xs = "[0xBB, 0x02, 0x22, 0x00, 0x11, r, 0x34, 0x00,
              0x01, 0x02, 0x03, 0x04, 0x05, 0x06, 0x07, 0x08, 0x09, 0x0A, 0x0B, 0x0C,
              0x3A, 0x5C, 0x00]"
  have rx: "rx (serial s) = ?xs @ 0x7E # rest" using assms(1) by (simp add: tag_frame_def)
  have nt: "0x7E \<notin> set ?xs" using assms(2) by simp
  have q: "quiet_from (script (serial s)) 0" by (simp add: quiet_from_def assms(5) silent_def)
  have "\<exists>s'. waitMsg n waitMsg_default s = Some (Inr (hd (?xs @ [0x7E]) = 0xBB, s')) \<and>
           take 24 (buffer s') = ?xs @ [0x7E] \<and> length (buffer s') = 256 \<and>
           cards s' = cards s \<and> script (serial s') = script (serial s) \<and>
           tx (serial s') = tx (serial s) \<and> rx (serial s') = rest"
    using assms(4) by (intro waitMsg_pending_quiet [OF rx nt _ assms(3) _ _ q]) simp_all
  then show ?thesis by (simp add: tag_frame_def assms(5))
qed






lemma waitMsg_frame_verdict:
  assumes wf: "length (buffer s) = 256"
    and rx: "rx (serial s) = pre @ [c, 0x7E] @ rest"
    and pre: "pre \<noteq> []" and short: "length pre + 2 < 256" and fuel: "length pre + 2 \<le> n"
  shows "verdict (waitMsg n t s) = Some (Inr (hd pre = 0xBB))"
proof -
  have "0x7E \<in> set (rx (serial s))" by (simp add: rx)
  then obtain xs rest' where split: "rx (serial s) = xs @ 0x7E # rest'" and nt: "0x7E \<notin> set xs"
    by (meson split_list_first)
  have len: "length xs \<le> length pre + 1"
  proof (rule ccontr)
    assume "\<not> length xs \<le> length pre + 1"
    then have lt: "length pre + 1 < length xs" by simp
    then have "rx (serial s) ! (length pre + 1) = xs ! (length pre + 1)"
      by (simp add: split nth_append)
    moreover have "rx (serial s) ! (length pre + 1) = 0x7E"
      by (simp add: rx nth_append)
    ultimately show False using nt lt by (metis nth_mem)
  qed
  have hd: "hd (xs @ [0x7E]) = hd pre"
  proof (cases xs)
    case Nil
    then show ?thesis using split rx pre by (cases pre) auto
  next
    case (Cons x xs')
    then show ?thesis using split rx pre by (cases pre) auto
  qed
  from waitMsg_pending_fuel [OF split nt _ wf, of n t] len short fuel
  obtain s' where "waitMsg n t s = Some (Inr (hd (xs @ [0x7E]) = 0xBB, s'))"
    by auto
  then show ?thesis by (simp add: verdict_def hd)
qed

subsection \<open>Draining, the next free slot, and runs without a terminator\<close>

lemma drain_reads:
  "drain n p = Some p' \<Longrightarrow>
   rx p' = [] \<and> (\<exists>ns. rd p' = rd p @ rx p @ ns) \<and>
   (quiet_from (script p) K \<longrightarrow> length (rd p') + backlog p' K = length (rd p) + backlog p K)"
proof (induction n arbitrary: p)
  case 0
  then show ?case by simp
next
  case (Suc n)
  show ?case
  proof (cases "rx (advance p) = []")
    case True
    then have "p' = advance p" using Suc.prems by (auto simp: available_def)
    then show ?thesis using True backlog_advance [of p K] by auto
  next
    case False
    then have d: "drain n (snd (read (advance p))) = Some p'"
      using Suc.prems by (simp add: available_def)
    note r = read_simps [OF False]
    from Suc.IH [OF d] obtain ns where
      e: "rx p' = []" and rd: "rd p' = rd (snd (read (advance p))) @ rx (snd (read (advance p))) @ ns"
      and bl: "quiet_from (script (snd (read (advance p)))) K \<longrightarrow>
               length (rd p') + backlog p' K =
               length (rd (snd (read (advance p)))) + backlog (snd (read (advance p))) K"
      by blast
    have "rd p' = rd p @ (hd (rx (advance p)) # tl (rx (advance p))) @
                  snd (script p (Suc (calls p))) @ ns"
      using rd by (simp add: r)
    then have "rd p' = rd p @ rx p @ (snd (script p (calls p)) @ snd (script p (Suc (calls p))) @ ns)"
      using False by simp
    then have ex: "\<exists>ns. rd p' = rd p @ rx p @ ns" by blast
    have "length (rd p') + backlog p' K = length (rd p) + backlog p K" if q: "quiet_from (script p) K"
    proof -
      have q1: "quiet_from (script (advance p)) K" using q by simp
      have "Suc (backlog (snd (read (advance p))) K) = backlog p K"
        using backlog_read [OF q1 False] backlog_advance [OF q] by simp
      moreover have "length (rd p') + backlog p' K =
               length (rd (snd (read (advance p)))) + backlog (snd (read (advance p))) K"
        using bl q by (simp add: r)
      ultimately show ?thesis by (simp add: r)
    qed
    with e ex show ?thesis by blast
  qed
qed

lemma next_free_packed:
  assumes "packed cs n" "length cs = 200" "n \<le> 200"
  shows "next_free cs = n"
proof -
  let ?P = "\<lambda>c. c \<noteq> empty_card"
  have "takeWhile ?P (take n cs @ drop n cs) = take n cs @ takeWhile ?P (drop n cs)"
    using assms(1) by (intro takeWhile_append2) (simp add: packed_def)
  moreover have "takeWhile ?P (drop n cs) = []"
  proof (cases "drop n cs")
    case Nil
    then show ?thesis by simp
  next
    case (Cons x xs)
    then have "x \<in> set (drop n cs)" by simp
    then have "x = empty_card" using assms(1) by (simp add: packed_def)
    then show ?thesis using Cons by simp
  qed
  ultimately have "takeWhile ?P cs = take n cs" by simp
  then show ?thesis using assms(2,3) by (simp add: next_free_def)
qed

lemma next_free_first:
  assumes "next_free cs = k" "k < 200" "length cs = 200"
  shows "cs ! k = empty_card \<and> (\<forall>i<k. cs ! i \<noteq> empty_card)"
proof -
  let ?P = "\<lambda>c. c \<noteq> empty_card"
  have k: "k = length (takeWhile ?P cs)" using assms(1,3) by (simp add: next_free_def)
  then have "length (takeWhile ?P cs) < length cs" using assms(2,3) by simp
  from nth_length_takeWhile [OF this] have a: "cs ! k = empty_card" using k by simp
  have "cs ! i \<noteq> empty_card" if "i < k" for i
  proof -
    have "takeWhile ?P cs ! i = cs ! i" using that k by (intro takeWhile_nth) simp
    moreover have "takeWhile ?P cs ! i \<in> set (takeWhile ?P cs)" using that k by simp
    ultimately show ?thesis by (metis set_takeWhileD)
  qed
  with a show ?thesis by blast
qed

lemma card_of_not_empty: "card_of buf \<noteq> empty_card"
proof
  assume "card_of buf = empty_card"
  then have "epc_str (card_of buf) = epc_str empty_card" by simp
  then show False using epc_of_nonempty [of buf] by (simp add: card_of_def empty_card_def)
qed

lemma packed_store:
  assumes "packed cs n" "n < length cs" "c \<noteq> empty_card"
  shows "packed (cs[n := c]) (Suc n)"
proof -
  have "take (Suc n) (cs[n := c]) = take n cs @ [c]"
    using assms(2) by (simp add: take_Suc_conv_app_nth)
  moreover have "set (drop (Suc n) cs) \<subseteq> set (drop n cs)"
    by (rule set_drop_subset_set_drop) simp
  ultimately show ?thesis using assms(1,3) by (auto simp: packed_def)
qed

lemma packed_empty: "packed (replicate 200 empty_card) 0"
  by (simp add: packed_def)

lemma waitMsg_cards: "waitMsg n t s = Some (Inr (ok, s')) \<Longrightarrow> cards s' = cards s"
  by (auto simp: waitMsg_def Let_def split: prod.splits option.splits if_splits)

lemma save_step:
  assumes "packed (cards s1) k" "length (cards s1) = 200" "k < 200"
  shows "next_free (cards s1) = k" and "insertIfNew s1 = saveCardInfo s1 k"
    and "saveCardInfo s1 k = Inr (ins, s2) \<Longrightarrow>
         packed (cards s2) (if ins then Suc k else k) \<and> length (cards s2) = 200"
proof -
  show nf: "next_free (cards s1) = k" using assms by (intro next_free_packed) simp_all
  then show "insertIfNew s1 = saveCardInfo s1 k" by (simp add: insertIfNew_def)
  assume sv: "saveCardInfo s1 k = Inr (ins, s2)"
  show "packed (cards s2) (if ins then Suc k else k) \<and> length (cards s2) = 200"
  proof (cases ins)
    case True
    then have "s2 = s1\<lparr>cards := (cards s1)[k := card_of (buffer s1)]\<rparr>"
      using sv by (auto simp: saveCardInfo_eq split: if_splits)
    then show ?thesis
      using True assms packed_store [OF assms(1) _ card_of_not_empty, of "buffer s1"] by simp
  next
    case False
    then have "s2 = s1" using sv by (auto simp: saveCardInfo_eq split: if_splits)
    then show ?thesis using False assms by simp
  qed
qed

lemma u8_le_200: "count < (200 :: u8) \<Longrightarrow> count + 1 \<le> 200"
  by (simp add: word_le_nat_alt word_less_nat_alt unat_word_ariths)

lemma pollingOnce_loop_scan:
  "packed (cards s) (unat count) \<Longrightarrow> length (cards s) = 200 \<Longrightarrow> count \<le> 200 \<Longrightarrow>
   pollingOnce_loop fuel count s = scan_loop fuel count s"
proof (induction fuel arbitrary: count s)
  case 0
  show ?case by simp
next
  case (Suc n)
  show ?case
  proof (cases "waitMsg n waitMsg_default s")
    case None
    then show ?thesis by simp
  next
    case (Some r)
    show ?thesis
    proof (cases r)
      case (Inl e)
      then show ?thesis using Some by simp
    next
      case (Inr x)
      obtain ok s1 where x: "x = (ok, s1)" by (cases x)
      have w: "waitMsg n waitMsg_default s = Some (Inr (ok, s1))" using Some Inr x by simp
      have c1: "cards s1 = cards s" using waitMsg_cards [OF w] .
      have inv1: "packed (cards s1) (unat count)" "length (cards s1) = 200"
        using Suc.prems c1 by simp_all
      consider (a) "\<not> ok" | (b) "ok" "buffer s1 ! 23 \<noteq> 0x7E" | (c) "ok" "buffer s1 ! 23 = 0x7E"
        by blast
      then show ?thesis
      proof cases
        case a
        then show ?thesis using w by simp
      next
        case b
        then show ?thesis using w Suc.IH [OF inv1 Suc.prems(3)] by simp
      next
        case c
        show ?thesis
        proof (cases "count < 200")
          case True
          note u = u8_count_step [OF True]
          note st = save_step [OF inv1 u(1)]
          obtain ins s2 where sv: "saveCardInfo s1 (unat count) = Inr (ins, s2)"
            using saveCardInfo_cases [OF u(1), of s1] by blast
          from st(3) [OF sv] have inv2: "packed (cards s2) (unat (if ins then count + 1 else count))"
            "length (cards s2) = 200"
            using u(2) by (simp_all split: if_splits)
          have le2: "(if ins then count + 1 else count) \<le> 200"
            using u8_le_200 [OF True] Suc.prems(3) by simp
          from Suc.IH [OF inv2 le2]
          show ?thesis using w c True sv st(1,2) u(1) by (cases ins) simp_all
        next
          case False
          then have "unat count = 200" using Suc.prems(3) by (simp add: word_le_nat_alt word_less_nat_alt)
          then have "next_free (cards s1) = 200" using inv1 by (intro next_free_packed) simp_all
          then show ?thesis using w c False by simp
        qed
      qed
    qed
  qed
qed

lemma pollingMultiple_loop_scan:
  "packed (cards s) (unat count) \<Longrightarrow> length (cards s) = 200 \<Longrightarrow> count \<le> 200 \<Longrightarrow>
   pollingMultiple_loop fuel count s = scan_loop fuel count s"
proof (induction fuel arbitrary: count s)
  case 0
  show ?case by simp
next
  case (Suc n)
  show ?case
  proof (cases "waitMsg n waitMsg_default s")
    case None
    then show ?thesis by simp
  next
    case (Some r)
    show ?thesis
    proof (cases r)
      case (Inl e)
      then show ?thesis using Some by simp
    next
      case (Inr x)
      obtain ok s1 where x: "x = (ok, s1)" by (cases x)
      have w: "waitMsg n waitMsg_default s = Some (Inr (ok, s1))" using Some Inr x by simp
      have c1: "cards s1 = cards s" using waitMsg_cards [OF w] .
      have inv1: "packed (cards s1) (unat count)" "length (cards s1) = 200"
        using Suc.prems c1 by simp_all
      consider (a) "\<not> ok" | (b) "ok" "buffer s1 ! 23 \<noteq> 0x7E" | (c) "ok" "buffer s1 ! 23 = 0x7E"
        by blast
      then show ?thesis
      proof cases
        case a
        then show ?thesis using w by simp
      next
        case b
        then show ?thesis using w Suc.IH [OF inv1 Suc.prems(3)] by simp
      next
        case c
        show ?thesis
        proof (cases "count < 200")
          case True
          note u = u8_count_step [OF True]
          note st = save_step [OF inv1 u(1)]
          obtain ins s2 where sv: "saveCardInfo s1 (unat count) = Inr (ins, s2)"
            using saveCardInfo_cases [OF u(1), of s1] by blast
          from st(3) [OF sv] have inv2: "packed (cards s2) (unat (if ins then count + 1 else count))"
            "length (cards s2) = 200"
            using u(2) by (simp_all split: if_splits)
          have le2: "(if ins then count + 1 else count) \<le> 200"
            using u8_le_200 [OF True] Suc.prems(3) by simp
          from Suc.IH [OF inv2 le2]
          show ?thesis using w c True sv st(1,2) u(1) by (cases ins) simp_all
        next
          case False
          then have eq: "count = 200" using Suc.prems(3) by simp
          then have "next_free (cards s1) = 200" using inv1 by (intro next_free_packed) simp_all
          then show ?thesis using w c False eq by simp
        qed
      qed
    qed
  qed
qed

lemma scan_loop_packed:
  "scan_loop fuel count s = Some (Inr (n, s')) \<Longrightarrow>
   packed (cards s) (unat count) \<Longrightarrow> length (cards s) = 200 \<Longrightarrow> count \<le> 200 \<Longrightarrow>
   packed (cards s') (unat n) \<and> length (cards s') = 200 \<and> n \<le> 200"
proof (induction fuel arbitrary: count s)
  case 0
  then show ?case by simp
next
  case (Suc m)
  show ?case
  proof (cases "waitMsg m waitMsg_default s")
    case None
    then show ?thesis using Suc.prems(1) by simp
  next
    case (Some r)
    show ?thesis
    proof (cases r)
      case (Inl e)
      then show ?thesis using Some Suc.prems(1) by simp
    next
      case (Inr x)
      obtain ok s1 where x: "x = (ok, s1)" by (cases x)
      have w: "waitMsg m waitMsg_default s = Some (Inr (ok, s1))" using Some Inr x by simp
      have c1: "cards s1 = cards s" using waitMsg_cards [OF w] .
      have inv1: "packed (cards s1) (unat count)" "length (cards s1) = 200"
        using Suc.prems c1 by simp_all
      consider (a) "\<not> ok" | (b) "ok" "buffer s1 ! 23 \<noteq> 0x7E" | (c) "ok" "buffer s1 ! 23 = 0x7E"
        by blast
      then show ?thesis
      proof cases
        case a
        then show ?thesis using w Suc.prems(1,4) inv1 by auto
      next
        case b
        then have "scan_loop m count s1 = Some (Inr (n, s'))" using w Suc.prems(1) by simp
        from Suc.IH [OF this inv1 Suc.prems(4)] show ?thesis .
      next
        case c
        show ?thesis
        proof (cases "count < 200")
          case True
          note u = u8_count_step [OF True]
          note st = save_step [OF inv1 u(1)]
          obtain ins s2 where sv: "saveCardInfo s1 (unat count) = Inr (ins, s2)"
            using saveCardInfo_cases [OF u(1), of s1] by blast
          from st(3) [OF sv] have inv2: "packed (cards s2) (unat (if ins then count + 1 else count))"
            "length (cards s2) = 200"
            using u(2) by (simp_all split: if_splits)
          have le2: "(if ins then count + 1 else count) \<le> 200"
            using u8_le_200 [OF True] Suc.prems(4) by simp
          have "scan_loop m (if ins then count + 1 else count) s2 = Some (Inr (n, s'))"
            using w c Suc.prems(1) sv st(1,2) u(1) by (cases ins) simp_all
          from Suc.IH [OF this inv2 le2] show ?thesis .
        next
          case False
          then have eq: "count = 200" using Suc.prems(4) by simp
          then have "next_free (cards s1) = 200" using inv1 by (intro next_free_packed) simp_all
          then show ?thesis using w c Suc.prems(1) inv1 eq by auto
        qed
      qed
    qed
  qed
qed

lemma packed_tail:
  assumes "packed cs n" "n \<le> i" "i < length cs"
  shows "cs ! i = empty_card"
proof -
  have "drop n cs ! (i - n) = cs ! i" using assms(2,3) by simp
  moreover have "drop n cs ! (i - n) \<in> set (drop n cs)" using assms(2,3) by (intro nth_mem) simp
  ultimately show ?thesis using assms(1) by (simp add: packed_def)
qed

lemma card_of_cong:
  assumes "take 24 a = take 24 b"
  shows "card_of a = card_of b"
proof -
  have n: "a ! i = b ! i" if "i < 24" for i
    using that assms by (metis nth_take)
  have "map (\<lambda>i. a ! i) [8..<20] = map (\<lambda>i. b ! i) [8..<20]"
  proof (rule map_cong [OF refl])
    fix x :: nat
    assume "x \<in> set [8..<20]"
    then have "8 \<le> x \<and> x < 20" by (simp only: set_upt atLeastLessThan_iff)
    then have "x < 24" by simp
    then show "a ! x = b ! x" by (rule n)
  qed
  then show ?thesis using epc_of_cong [of a b] by (simp add: card_of_def n)
qed

lemma pollingOnce_same_tag_twice:
  "\<exists>s'. pollingOnce 30 tabs (driver_with (tag_frame 0xC9 @ tag_frame 0xC0)) = Some (Inr (1, s')) \<and>
        cards s' = (replicate 200 empty_card)[0 := card_of (tag_frame 0xC9)]"
proof -
  define s0 where "s0 = driver_with (tag_frame 0xC9 @ tag_frame 0xC0)"
  define sA where "sA = sendCMD (s0\<lparr>cards := cleanCardsBuffer (cards s0)\<rparr>) (POLLING_ONCE_CMD tabs)"
  have A: "rx (serial sA) = tag_frame 0xC9 @ tag_frame 0xC0" "length (buffer sA) = 256"
    "script (serial sA) = silent" "cards sA = replicate 200 empty_card"
    by (simp_all add: sA_def s0_def sendCMD_def write_port_def silent_def cleanCardsBuffer_eq)
  from waitMsg_tag_frame [OF A(1) _ A(2) _ A(3), of 29] obtain s1 where
    w1: "waitMsg 29 waitMsg_default sA = Some (Inr (True, s1))" and
    s1: "take 24 (buffer s1) = tag_frame 0xC9" "length (buffer s1) = 256" "cards s1 = cards sA"
        "script (serial s1) = silent" "rx (serial s1) = tag_frame 0xC0"
    by auto
  note n1 = take_24_nth [OF s1(1)]
  have e1: "epc_of (buffer s1) = epc_of (tag_frame 0xC9)" by (rule epc_of_cong) (rule n1(3))
  have co: "card_of (buffer s1) = card_of (tag_frame 0xC9)"
    by (rule card_of_cong) (simp add: s1(1) tag_frame_def)
  define s2 where "s2 = s1\<lparr>cards := (cards s1)[0 := card_of (buffer s1)]\<rparr>"
  have "filterCardInfo (cards s1) (epc_of (buffer s1))"
    using epc_of_nonempty [of "buffer s1"] by (auto simp: filterCardInfo_iff s1(3) A(4) empty_card_def)
  then have sv1: "saveCardInfo s1 (unat (0 :: u8)) = Inr (True, s2)"
    by (simp add: saveCardInfo_eq s2_def)
  have f1: "buffer s1 ! 23 = 0x7E" by (simp add: n1(2) tag_frame_def)
  have step1: "pollingOnce_loop 30 0 sA = pollingOnce_loop 29 1 s2"
    using pollingOnce_loop_step [OF _ w1 f1 _ sv1, of 30] by simp
  have B: "rx (serial s2) = tag_frame 0xC0 @ []" "length (buffer s2) = 256" "script (serial s2) = silent"
    by (simp_all add: s2_def s1)
  from waitMsg_tag_frame [OF B(1) _ B(2) _ B(3), of 28] obtain s3 where
    w2: "waitMsg 28 waitMsg_default s2 = Some (Inr (True, s3))" and
    s3: "take 24 (buffer s3) = tag_frame 0xC0" "length (buffer s3) = 256" "cards s3 = cards s2"
        "script (serial s3) = silent" "rx (serial s3) = []"
    by auto
  note n3 = take_24_nth [OF s3(1)]
  have e3: "epc_of (buffer s3) = epc_of (tag_frame 0xC0)" by (rule epc_of_cong) (rule n3(3))
  have c0: "cards s3 ! 0 = card_of (buffer s1)"
    by (simp add: s3(3) s2_def s1(3) A(4))
  have "epc_str (cards s3 ! 0) = epc_of (buffer s3)"
    using tag_frame_epc [of "0xC9" "0xC0"] by (simp add: c0 card_of_def e1 e3)
  then have "\<not> filterCardInfo (cards s3) (epc_of (buffer s3))"
    unfolding filterCardInfo_iff by (intro notI) (auto dest: spec [of _ 0])
  then have sv2: "saveCardInfo s3 (unat (1 :: u8)) = Inr (False, s3)"
    by (simp add: saveCardInfo_eq)
  have f3: "buffer s3 ! 23 = 0x7E" by (simp add: n3(2) tag_frame_def)
  have step2: "pollingOnce_loop 29 1 s2 = pollingOnce_loop 28 1 s3"
    using pollingOnce_loop_step [OF _ w2 f3 _ sv2, of 29] by simp
  from waitMsg_silent_false [OF s3(4,5,2), of 27] obtain s4 where
    w3: "waitMsg 27 waitMsg_default s3 = Some (Inr (False, s4))" and s4: "cards s4 = cards s3"
    by (auto simp: waitMsg_default_def)
  have step3: "pollingOnce_loop 28 1 s3 = Some (Inr (1, s4))"
    using pollingOnce_loop_end [OF _ w3, of 28 1] by simp
  have run1: "pollingOnce 30 tabs s0 = Some (Inr (1, s4))"
    unfolding pollingOnce_def sA_def [symmetric] by (simp only: step1 step2 step3)
  have "cards s4 = (replicate 200 empty_card)[0 := card_of (tag_frame 0xC9)]"
    by (simp add: s4 s3(3) s2_def s1(3) A(4) co)
  with run1 show ?thesis unfolding s0_def by blast
qed

lemma rssi_card_of_tag_frame: "rssi (card_of (tag_frame r)) = r"
  by (simp add: card_of_def tag_frame_def)

lemma pollingMultiple_silent:
  "\<exists>s'. pollingMultiple 10 tabs (driver_with []) pcount = Some (Inr (0, s'))"
proof -
  from memcpy_buffer_Inr [of "POLLING_MULTIPLE_CMD tabs" "buffer (driver_with [])"]
  obtain b0 where m: "memcpy_buffer (buffer (driver_with [])) (POLLING_MULTIPLE_CMD tabs) = Inr b0"
    by auto
  then obtain b where fr: "pollingMultiple_frame (POLLING_MULTIPLE_CMD tabs) (buffer (driver_with [])) pcount = Inr b"
    by (simp add: pollingMultiple_frame_def Let_def)
  have lb: "length b = 256" using pollingMultiple_frame_Inr [OF fr] by simp
  define s1 where "s1 = sendCMD (driver_with []\<lparr>cards := cleanCardsBuffer (cards (driver_with [])), buffer := b\<rparr>)
                 (take (length (POLLING_MULTIPLE_CMD tabs)) b)"
  have f: "script (serial s1) = silent" "rx (serial s1) = []" "length (buffer s1) = 256"
    by (simp_all add: s1_def sendCMD_def write_port_def silent_def lb)
  from waitMsg_silent_false [OF f, of 9] obtain s' where
    w: "waitMsg 9 waitMsg_default s1 = Some (Inr (False, s'))"
    by (auto simp: waitMsg_default_def)
  have "pollingMultiple_loop 10 0 s1 = Some (Inr (0, s'))"
    using w by (simp add: numeral_eq_Suc)
  then show ?thesis unfolding pollingMultiple_def fr s1_def by auto
qed

lemma waitMsg_loop_busy:
  "no_terminator p \<Longrightarrow> \<forall>k\<ge>calls p. snd (script p k) \<noteq> [] \<Longrightarrow>
   waitMsg_loop n start time i buf p = None"
proof (induction n arbitrary: i buf p)
  case 0
  then show ?case by simp
next
  case (Suc n)
  obtain stop i1 buf1 p1 where turn: "waitMsg_turn start time i buf p = (stop, i1, buf1, p1)"
    by (metis prod_cases4)
  have "rx (advance p) \<noteq> []" using Suc.prems(2) by simp
  then have body: "waitMsg_body i buf (advance p) = (stop, i1, buf1, p1)"
    using turn by (simp add: waitMsg_turn_paths Let_def)
  from waitMsg_body_no_terminator [OF no_terminator_advance [OF Suc.prems(1)] body]
  have nt: "no_terminator p1" and ns: "\<not> stop" by simp_all
  have sc: "script p1 = script p" "calls p < calls p1" using waitMsg_turn_cases [OF turn] by simp_all
  have "\<forall>k\<ge>calls p1. snd (script p1 k) \<noteq> []" using Suc.prems(2) sc by simp
  from Suc.IH [OF nt this, of i1 buf1]
  show ?case using turn ns by simp
qed

lemma waitMsg_never_accepts:
  assumes wf: "length (buffer s) = 256" and nt: "no_terminator (serial s)"
    and run: "waitMsg n time s = Some (Inr (ok, s'))"
  shows "\<not> ok \<and> time \<le> fst (script (serial s) (calls (serial s') - 1)) -
                        fst (script (serial s) (calls (serial s)))"
proof -
  define p0 where "p0 = advance (serial s)"
  define start where "start = fst (script (serial s) (calls (serial s)))"
  define cb where "cb = cleanBuffer (buffer s)"
  from run obtain i buf p where
    loop: "waitMsg_loop n start time 0 cb p0 = Some (i, buf, p)" and
    res: "Inr (ok, s') =
            (if buf ! 0 = 0xBB then
               (if i = 0 then Inl BufferIndex
                else Inr (buf ! (unat i - 1) = 0x7E, s\<lparr>buffer := buf, serial := p\<rparr>))
             else Inr (False, s\<lparr>buffer := buf, serial := p\<rparr>))"
    by (auto simp: waitMsg_def millis_def p0_def start_def cb_def split: option.splits)
  from waitMsg_loop_sound [OF loop] obtain ns where
    rd: "rd p = rd p0 @ ns" and i: "i = of_nat (length ns)" and buf: "buf = store 0 ns cb" and
    ex: "(ns \<noteq> [] \<and> last ns = 0x7E) \<or> (0x7E \<notin> set ns \<and> time \<le> fst (script p0 (calls p - 1)) - start)"
    by auto
  have nt0: "no_terminator p0" using nt unfolding p0_def by (rule no_terminator_advance)
  have no7e: "0x7E \<notin> set ns" using waitMsg_loop_no_terminator [OF nt0 loop rd] .
  then have lastne: "ns \<noteq> [] \<Longrightarrow> last ns \<noteq> 0x7E" by (metis last_in_set)
  with ex have late: "time \<le> fst (script p0 (calls p - 1)) - start" by blast
  have s': "serial s' = p" using res by (auto split: if_splits)
  have lcb: "length cb = 256" using wf by (simp add: cb_def length_cleanBuffer)
  have "\<not> ok"
  proof
    assume ok
    then have a: "i \<noteq> 0" "buf ! (unat i - 1) = 0x7E" using res by (auto split: if_splits)
    from a(1) have ne: "ns \<noteq> []" by (auto simp: i)
    from store_last [OF ne lcb, of 0] a(1) have "buf ! (unat i - 1) = last ns"
      by (simp add: i buf)
    with a(2) lastne [OF ne] show False by simp
  qed
  then show ?thesis using late by (simp add: s' p0_def start_def)
qed

lemma waitMsg_quiet_returns:
  assumes q: "quiet_from (script (serial s)) K"
    and c: "calls (serial s) \<le> K"
    and l: "late_between (script (serial s)) (fst (script (serial s) (calls (serial s)))) time
              K (K + 4 * backlog (serial s) K + 5)"
    and fuel: "backlog (serial s) K + (K - calls (serial s)) < n"
  shows "\<exists>r. waitMsg n time s = Some r"
proof -
  define p0 where "p0 = advance (serial s)"
  define start where "start = fst (script (serial s) (calls (serial s)))"
  define B where "B = backlog (serial s) K"
  define cb where "cb = cleanBuffer (buffer s)"
  have sc0: "script p0 = script (serial s)" by (simp add: p0_def)
  have b0: "backlog p0 K = B"
    using backlog_advance [OF q] by (simp add: p0_def B_def)
  have "\<exists>r. waitMsg_loop n start time 0 cb p0 = Some r"
  proof (rule waitMsg_loop_terminates [where K = K and B = B])
    show "quiet_from (script p0) K" using q by (simp add: sc0)
    show "late_between (script p0) start time K (K + 4 * B + 5)"
      using l by (simp add: sc0 start_def B_def)
    have "calls p0 = Suc (calls (serial s))" by (simp add: p0_def)
    then show "calls p0 + 4 * backlog p0 K \<le> K + 4 * B + 3" using c by (simp add: b0)
    show "backlog p0 K \<le> B" by (simp add: b0)
    have "calls p0 = Suc (calls (serial s))" by (simp add: p0_def)
    then show "backlog p0 K + (K - calls p0) < n" using fuel unfolding b0 B_def by simp
  qed
  then obtain i buf p where loop: "waitMsg_loop n start time 0 cb p0 = Some (i, buf, p)"
    by (metis prod_cases3)
  then show ?thesis
    by (simp add: waitMsg_def millis_def p0_def start_def cb_def)
qed

lemma waitMsg_loop_read_quiet:
  "rx p = xs \<Longrightarrow> 0x7E \<notin> set xs \<Longrightarrow> quiet_from (script p) 0 \<Longrightarrow> m = length xs + n \<Longrightarrow>
   \<exists>p'. waitMsg_loop m start time i buf p =
           waitMsg_loop n start time (i + of_nat (length xs)) (store i xs buf) p' \<and>
        rx p' = [] \<and> script p' = script p \<and> calls p' = calls p + 3 * length xs"
proof (induction xs arbitrary: i buf p m)
  case Nil
  then have "waitMsg_loop m start time i buf p =
           waitMsg_loop n start time (i + of_nat (length ([] :: u8 list))) (store i [] buf) p \<and>
        rx p = [] \<and> script p = script p \<and> calls p = calls p + 3 * length ([] :: u8 list)"
    by simp
  then show ?case by (rule exI)
next
  case (Cons x xs)
  have ne: "rx p \<noteq> []" using Cons.prems(1) by simp
  have hd: "hd (rx p) = x" and tl: "tl (rx p) = xs" using Cons.prems(1) by simp_all
  have x7: "x \<noteq> 0x7E" and nt': "0x7E \<notin> set xs" using Cons.prems(2) by auto
  have q: "snd (script p k) = []" for k using Cons.prems(3) by (simp add: quiet_from_def)
  note ps = pop_simps [OF ne]
  have turn: "waitMsg_turn start time i buf p = (False, i + 1, buf[unat i := x], pop p)"
    unfolding waitMsg_turn_pending [OF ne] hd using x7 by simp
  have rx1: "rx (pop p) = xs" unfolding ps(5) tl by (simp add: q)
  have q1: "quiet_from (script (pop p)) 0" using Cons.prems(3) by (simp only: ps(1))
  from Cons.IH [OF rx1 nt' q1 refl, where i = "i + 1" and buf = "buf[unat i := x]"]
  obtain p' where
    st: "waitMsg_loop (length xs + n) start time (i + 1) (buf[unat i := x]) (pop p) =
           waitMsg_loop n start time (i + 1 + of_nat (length xs)) (store (i + 1) xs (buf[unat i := x])) p'"
    and f: "rx p' = []" "script p' = script (pop p)" "calls p' = calls (pop p) + 3 * length xs"
    by (elim exE conjE)
  have m: "m = Suc (length xs + n)" using Cons.prems(4) by simp
  have e1: "waitMsg_loop m start time i buf p =
          waitMsg_loop (length xs + n) start time (i + 1) (buf[unat i := x]) (pop p)"
    unfolding m by (simp only: waitMsg_loop.simps turn prod.case bool.case)
  have a1: "i + 1 + of_nat (length xs) = i + of_nat (length (x # xs))" by simp
  have a2: "store (i + 1) xs (buf[unat i := x]) = store i (x # xs) buf" by simp
  have e: "waitMsg_loop m start time i buf p =
          waitMsg_loop n start time (i + of_nat (length (x # xs))) (store i (x # xs) buf) p'"
    using e1 st unfolding a1 a2 by (rule trans)
  have c: "calls p' = calls p + 3 * length (x # xs)" unfolding f(3) ps(3) by simp
  have sc: "script p' = script p" unfolding f(2) ps(1) ..
  from e f(1) sc c show ?case by (intro exI [of _ p'] conjI)
qed

lemma waitMsg_loop_exit:
  assumes "rx p = []" "quiet_from (script p) 0" "\<not> fst (script p (Suc (calls p))) - start < time"
  shows "waitMsg_loop (Suc n) start time i buf p = Some (i, buf, advance (advance p))"
proof -
  have "rx (advance p) = []" using assms(1,2) by (simp add: quiet_from_def)
  then have "waitMsg_turn start time i buf p = (True, i, buf, advance (advance p))"
    using assms(3) by (simp add: waitMsg_turn_paths Let_def)
  then show ?thesis by simp
qed

lemma waitMsg_256_bytes:
  "verdict (waitMsg 257 500 (driver_with (0xBB # replicate 255 0x00))) = Some (Inl BufferIndex)"
proof -
  define xs :: "u8 list" where "xs = 0xBB # replicate 255 0x00"
  define s where "s = driver_with xs"
  define cb where "cb = cleanBuffer (buffer s)"
  have lx: "length xs = 256" by (simp add: xs_def)
  have lcb: "length cb = 256" by (simp add: cb_def s_def length_cleanBuffer)
  have rx0: "rx (advance (serial s)) = xs" by (simp add: s_def silent_def)
  have nt: "0x7E \<notin> set xs" by (simp add: xs_def)
  have q: "quiet_from (script (advance (serial s))) 0" by (simp add: s_def quiet_from_def silent_def)
  have st: "fst (script (serial s) (calls (serial s))) = 0" by (simp add: s_def silent_def)
  have m: "(257 :: nat) = length xs + Suc 0" by (simp add: lx)
  from waitMsg_loop_read_quiet [OF rx0 nt q m, of 0 500 0 cb] obtain p' where
    rdl: "waitMsg_loop 257 0 500 0 cb (advance (serial s)) =
            waitMsg_loop (Suc 0) 0 500 (0 + of_nat (length xs)) (store 0 xs cb) p'" and
    f: "rx p' = []" "script p' = script (advance (serial s))"
       "calls p' = calls (advance (serial s)) + 3 * length xs"
    by blast
  have sc: "script p' = silent" and cl: "calls p' = 769" using f(2,3) by (simp_all add: s_def lx)
  have q': "quiet_from (script p') 0" using q f(2) by simp
  have "fst (script p' (Suc (calls p'))) = (77000 :: u32)" by (simp add: sc cl silent_def)
  then have late: "\<not> fst (script p' (Suc (calls p'))) - 0 < (500 :: u32)" by simp
  from waitMsg_loop_exit [OF f(1) q' late, of 0 "0 + of_nat (length xs)" "store 0 xs cb"]
  have "waitMsg_loop 257 0 500 0 cb (advance (serial s)) =
          Some (0 + of_nat (length xs), store 0 xs cb, advance (advance p'))"
    using rdl by simp
  then have loop: "waitMsg_loop 257 (fst (script (serial s) (calls (serial s)))) 500 0
                     (cleanBuffer (buffer s)) (advance (serial s)) =
          Some (0, store 0 xs cb, advance (advance p'))"
    by (simp add: st cb_def lx)
  have "store 0 xs cb = xs @ drop (length xs) cb"
    using lx lcb by (intro store_0_short) simp_all
  then have b0: "store 0 xs cb ! 0 = 0xBB" by (simp add: xs_def)
  from verdict_waitMsg [OF loop] b0 show ?thesis by (simp add: s_def xs_def)
qed

section \<open>The claims\<close>

text \<open>
  C1. \<open>waitMsg\<close> returns true only when \<open>buffer[0]\<close> is 0xBB and the last byte read is
  0x7E. A stream whose first byte is not 0xBB is turned down whenever at most 256 bytes of
  it are read in the call; \<open>ns\<close> is the bytes the call reads. (Past 256 bytes the index
  has wrapped and \<open>buffer[0]\<close> holds a later byte: see the counterexample.)
\<close>

theorem waitMsg_accepts_only_marked:
  assumes "length (buffer s) = 256" and "waitMsg n time s = Some (Inr (ok, s'))"
  shows "\<exists>ns. rd (serial s') = rd (serial s) @ ns \<and>
              (ok \<longrightarrow> buffer s' ! 0 = 0xBB \<and> ns \<noteq> [] \<and> last ns = 0x7E) \<and>
              (length ns \<le> 256 \<and> (ns = [] \<or> hd ns \<noteq> 0xBB) \<longrightarrow> \<not> ok)"
proof -
  from waitMsg_sound [OF assms(2,1)] obtain ns p where
    rd: "rd p = rd (serial s) @ ns" and
    r: "Inr (ok, s') =
          (let buf = store 0 ns (cleanBuffer (buffer s)); i = (of_nat (length ns) :: u8);
               s' = s\<lparr>buffer := buf, serial := p\<rparr>
           in if buf ! 0 = 0xBB then
                (if i = 0 then Inl BufferIndex else Inr (buf ! (unat i - 1) = 0x7E, s'))
              else Inr (False, s'))"
    by blast
  define buf where "buf = store 0 ns (cleanBuffer (buffer s))"
  have s': "s' = s\<lparr>buffer := buf, serial := p\<rparr>"
    using r by (auto simp: Let_def buf_def split: if_splits)
  have acc: "buf ! 0 = 0xBB \<and> (of_nat (length ns) :: u8) \<noteq> 0 \<and>
             buf ! (unat (of_nat (length ns) :: u8) - 1) = 0x7E" if ok
    using r that by (auto simp: Let_def buf_def split: if_splits)
  have ne: "ns \<noteq> []" if ok
    using acc [OF that] by auto
  have lst: "last ns = 0x7E" if ok
    using store_last [of ns "cleanBuffer (buffer s)" 0] acc [OF that] ne [OF that] assms(1)
    by (simp add: buf_def length_cleanBuffer)
  have hd: "hd ns = 0xBB" if ok "length ns \<le> 256"
  proof -
    have "buf = ns @ drop (length ns) (cleanBuffer (buffer s))"
      unfolding buf_def using that(2) assms(1) by (intro store_0_short) (simp_all add: length_cleanBuffer)
    then have "buf ! 0 = hd ns"
      using ne [OF that(1)] by (simp add: nth_append hd_conv_nth)
    then show ?thesis using acc [OF that(1)] by simp
  qed
  show ?thesis
    using rd acc ne lst hd by (intro exI [of _ ns]) (auto simp: s')
qed

text \<open>A frame that is accepted, and a stream without the leading 0xBB that is turned down.\<close>

theorem waitMsg_accepts_only_marked_witness:
  "(\<exists>s'. waitMsg 3 500 (driver_with [0xBB, 0x01, 0x7E]) = Some (Inr (True, s')) \<and>
         buffer s' ! 0 = 0xBB \<and> rd (serial s') = [0xBB, 0x01, 0x7E]) \<and>
   (\<exists>s'. waitMsg 3 500 (driver_with [0x01, 0x02, 0x7E]) = Some (Inr (False, s')) \<and>
         rd (serial s') = [0x01, 0x02, 0x7E])"
proof -
  have wf: "length (buffer (driver_with bs)) = 256" for bs by simp
  from waitMsg_pending_fuel [of "driver_with [0xBB, 0x01, 0x7E]" "[0xBB, 0x01]" "[]" 3 500]
  obtain s1 where run1: "waitMsg 3 500 (driver_with [0xBB, 0x01, 0x7E]) = Some (Inr (True, s1))"
    and rd1: "rd (serial s1) = [0xBB, 0x01, 0x7E]"
    by auto
  from waitMsg_pending_fuel [of "driver_with [0x01, 0x02, 0x7E]" "[0x01, 0x02]" "[]" 3 500]
  obtain s2 where run2: "waitMsg 3 500 (driver_with [0x01, 0x02, 0x7E]) = Some (Inr (False, s2))"
    and rd2: "rd (serial s2) = [0x01, 0x02, 0x7E]"
    by auto
  from waitMsg_accepts_only_marked [OF wf run1] rd1 have "buffer s1 ! 0 = 0xBB" by auto
  moreover from waitMsg_accepts_only_marked [OF wf run2] rd2 have "True" by simp
  ultimately show ?thesis using run1 rd1 run2 rd2 by blast
qed

text \<open>
  C1 as stated fails: 256 zero bytes, then 0xBB and 0x7E. The 257th byte lands in
  \<open>buffer[0]\<close>, and the stream is accepted though its first byte is 0x00.
\<close>

theorem waitMsg_wrapped_stream_counterexample:
  "hd (replicate 256 0x00 @ [0xBB, 0x7E :: u8]) \<noteq> 0xBB \<and>
   verdict (waitMsg 258 500 (driver_with (replicate 256 0x00 @ [0xBB, 0x7E]))) = Some (Inr True)"
proof -
  define s where "s = driver_with (replicate 256 0x00 @ [0xBB, 0x7E])"
  have rx0: "rx (advance (serial s)) = (replicate 256 0x00 @ [0xBB]) @ 0x7E # []"
    by (simp add: s_def silent_def)
  have nt: "(0x7E :: u8) \<notin> set (replicate 256 0x00 @ [0xBB])" by simp
  from waitMsg_loop_pending [OF rx0 nt, of 0 "fst (script (serial s) (calls (serial s)))" 500 0
      "cleanBuffer (buffer s)"]
  obtain p where loop:
    "waitMsg_loop 258 (fst (script (serial s) (calls (serial s)))) 500 0 (cleanBuffer (buffer s))
       (advance (serial s)) =
     Some (2, store 0 ((replicate 256 0x00 @ [0xBB]) @ [0x7E]) (cleanBuffer (buffer s)), p)"
    by auto
  have "store 0 ((replicate 256 0x00 @ [0xBB]) @ [0x7E]) (cleanBuffer (buffer s)) =
        (store 0 (replicate 256 0x00) (cleanBuffer (buffer s)))[0 := 0xBB, 1 := 0x7E]"
    using store_append [of 0 "replicate 256 0x00" "[0xBB, 0x7E]" "cleanBuffer (buffer s)"]
    by simp
  moreover have "length (store 0 (replicate 256 0x00) (cleanBuffer (buffer s))) = 256"
    by (simp add: s_def length_cleanBuffer)
  ultimately have b: "store 0 ((replicate 256 0x00 @ [0xBB]) @ [0x7E]) (cleanBuffer (buffer s)) ! 0 = 0xBB"
    "store 0 ((replicate 256 0x00 @ [0xBB]) @ [0x7E]) (cleanBuffer (buffer s)) ! 1 = 0x7E"
    by simp_all
  have "verdict (waitMsg 258 500 s) = Some (Inr True)"
    using verdict_waitMsg [OF loop] b by simp
  then show ?thesis by (simp add: s_def)
qed

text \<open>
  C9. \<open>cleanBuffer\<close> zeroes the bytes 0 to 199 of the frame buffer and leaves the bytes
  200 to 255 as they were. \<open>waitMsg\<close> starts with it, so after a \<open>waitMsg\<close> that reads
  at most 200 bytes the buffer still holds at 200 to 255 what it held before the call.
\<close>

theorem cleanBuffer_spares_tail:
  assumes "length (buffer s) = 256"
  shows "(\<forall>i<200. cleanBuffer (buffer s) ! i = 0) \<and>
         (\<forall>i. 200 \<le> i \<and> i < 256 \<longrightarrow> cleanBuffer (buffer s) ! i = buffer s ! i) \<and>
         (\<forall>n time ok s' i.
            waitMsg n time s = Some (Inr (ok, s')) \<and>
            length (rd (serial s')) \<le> length (rd (serial s)) + 200 \<and> 200 \<le> i \<and> i < 256 \<longrightarrow>
            buffer s' ! i = buffer s ! i)"
proof (intro conjI allI impI)
  fix i :: nat
  assume "i < 200"
  then show "cleanBuffer (buffer s) ! i = 0"
    using assms by (simp add: cleanBuffer_eq nth_append)
next
  fix i :: nat
  assume "200 \<le> i \<and> i < 256"
  then show "cleanBuffer (buffer s) ! i = buffer s ! i"
    using assms by (simp add: cleanBuffer_eq nth_append)
next
  fix n time ok s' and i :: nat
  assume a: "waitMsg n time s = Some (Inr (ok, s')) \<and>
             length (rd (serial s')) \<le> length (rd (serial s)) + 200 \<and> 200 \<le> i \<and> i < 256"
  from waitMsg_Inr [OF conjunct1 [OF a] assms] obtain ns where
    rd: "rd (serial s') = rd (serial s) @ ns" and
    short: "length ns < 256 \<longrightarrow> buffer s' = ns @ drop (length ns) (cleanBuffer (buffer s))"
    by blast
  from a rd have len: "length ns \<le> 200" by simp
  with short have "buffer s' = ns @ drop (length ns) (cleanBuffer (buffer s))" by simp
  then have "buffer s' ! i = cleanBuffer (buffer s) ! i"
    using a len assms by (simp add: nth_append length_cleanBuffer)
  then show "buffer s' ! i = buffer s ! i"
    using a assms by (simp add: cleanBuffer_eq nth_append)
qed

text \<open>A buffer of 0x55 throughout, and a three-byte frame received into it.\<close>

theorem cleanBuffer_spares_tail_witness:
  "cleanBuffer (replicate 256 0x55) ! 199 = 0 \<and> cleanBuffer (replicate 256 0x55) ! 200 = 0x55 \<and>
   (\<exists>s'. waitMsg 3 500 (driver_with [0xBB, 0x01, 0x7E]) = Some (Inr (True, s')) \<and>
         buffer s' ! 3 = 0 \<and> buffer s' ! 255 = 0x55)"
proof -
  have wf: "length (buffer (driver_with [0xBB, 0x01, 0x7E])) = 256" by simp
  from waitMsg_pending_fuel [of "driver_with [0xBB, 0x01, 0x7E]" "[0xBB, 0x01]" "[]" 3 500]
  obtain s' where run: "waitMsg 3 500 (driver_with [0xBB, 0x01, 0x7E]) = Some (Inr (True, s'))"
    and rd: "rd (serial s') = [0xBB, 0x01, 0x7E]"
    and buf: "buffer s' = [0xBB, 0x01, 0x7E] @ drop 3 (cleanBuffer (replicate 256 0x55))"
    by (auto simp: numeral_3_eq_3)
  note spared = cleanBuffer_spares_tail [OF wf]
  from spared have c: "cleanBuffer (replicate 256 0x55) ! 199 = 0"
    "cleanBuffer (replicate 256 0x55) ! 3 = 0"
    "cleanBuffer (replicate 256 0x55) ! 200 = 0x55" by simp_all
  from spared have
    "waitMsg 3 500 (driver_with [0xBB, 0x01, 0x7E]) = Some (Inr (True, s')) \<and>
     length (rd (serial s')) \<le> length (rd (serial (driver_with [0xBB, 0x01, 0x7E]))) + 200 \<and>
     (200 :: nat) \<le> 255 \<and> (255 :: nat) < 256 \<longrightarrow>
     buffer s' ! 255 = buffer (driver_with [0xBB, 0x01, 0x7E]) ! 255"
    by blast
  with run rd have "buffer s' ! 255 = 0x55" by simp
  moreover have "buffer s' ! 3 = 0"
    using c(2) by (simp add: buf length_cleanBuffer)
  ultimately show ?thesis using c run by blast
qed

text \<open>
  C8. \<open>waitMsg\<close> verifies no checksum. Two frames of fewer than 256 bytes that differ
  only in the byte before the closing 0x7E, each waiting in the receive queue when
  \<open>waitMsg\<close> is called, get the same verdict, and this verdict is whether the first byte
  is 0xBB. Whatever the timing, a call that returns after reading fewer than 256 bytes
  accepts exactly when the first byte read is 0xBB and the last one is 0x7E.
\<close>

theorem waitMsg_ignores_checksum:
  assumes "length (buffer s1) = 256" and "length (buffer s2) = 256"
    and "rx (serial s1) = pre @ [c1, 0x7E] @ rest1" and "rx (serial s2) = pre @ [c2, 0x7E] @ rest2"
    and "pre \<noteq> []" and "length pre + 2 < 256" and "length pre + 2 \<le> n1" and "length pre + 2 \<le> n2"
  shows "verdict (waitMsg n1 t1 s1) = Some (Inr (hd pre = 0xBB)) \<and>
         verdict (waitMsg n2 t2 s2) = Some (Inr (hd pre = 0xBB)) \<and>
         (\<forall>n t ok s'. waitMsg n t s1 = Some (Inr (ok, s')) \<and>
             length (rd (serial s')) < length (rd (serial s1)) + 256 \<longrightarrow>
             (\<exists>ns. rd (serial s') = rd (serial s1) @ ns \<and>
                   ok = (ns \<noteq> [] \<and> hd ns = 0xBB \<and> last ns = 0x7E)))"
proof (intro conjI allI impI)
  show "verdict (waitMsg n1 t1 s1) = Some (Inr (hd pre = 0xBB))"
    using assms by (intro waitMsg_frame_verdict [where c = c1 and rest = rest1]) simp_all
  show "verdict (waitMsg n2 t2 s2) = Some (Inr (hd pre = 0xBB))"
    using assms by (intro waitMsg_frame_verdict [where c = c2 and rest = rest2]) simp_all
next
  fix n t ok s'
  assume a: "waitMsg n t s1 = Some (Inr (ok, s')) \<and>
             length (rd (serial s')) < length (rd (serial s1)) + 256"
  from waitMsg_Inr [OF conjunct1 [OF a] assms(1)] obtain ns where
    rd: "rd (serial s') = rd (serial s1) @ ns" and
    short: "length ns < 256 \<longrightarrow> ok = (ns \<noteq> [] \<and> hd ns = 0xBB \<and> last ns = 0x7E)"
    by blast
  from a rd have "length ns < 256" by simp
  with short rd show "\<exists>ns. rd (serial s') = rd (serial s1) @ ns \<and>
                         ok = (ns \<noteq> [] \<and> hd ns = 0xBB \<and> last ns = 0x7E)"
    by blast
qed

text \<open>
  The same frame with the checksum of its bytes 1 to 4 (0x23) and with a wrong one (0x99):
  both are accepted.
\<close>

theorem waitMsg_ignores_checksum_witness:
  "verdict (waitMsg 7 500 (driver_with [0xBB, 0x01, 0x22, 0x00, 0x00, 0x23, 0x7E])) = Some (Inr True) \<and>
   verdict (waitMsg 7 500 (driver_with [0xBB, 0x01, 0x22, 0x00, 0x00, 0x99, 0x7E])) = Some (Inr True) \<and>
   sum_bytes [0xBB, 0x01, 0x22, 0x00, 0x00, 0x99, 0x7E] 1 5 \<noteq> 0x99"
proof -
  have "verdict (waitMsg 7 500 (driver_with [0xBB, 0x01, 0x22, 0x00, 0x00, 0x23, 0x7E])) =
          Some (Inr (hd [0xBB, 0x01, 0x22, 0x00, 0x00 :: u8] = 0xBB)) \<and>
        verdict (waitMsg 7 500 (driver_with [0xBB, 0x01, 0x22, 0x00, 0x00, 0x99, 0x7E])) =
          Some (Inr (hd [0xBB, 0x01, 0x22, 0x00, 0x00 :: u8] = 0xBB))"
    using waitMsg_ignores_checksum [where ?s1.0 = "driver_with [0xBB, 0x01, 0x22, 0x00, 0x00, 0x23, 0x7E]"
        and ?s2.0 = "driver_with [0xBB, 0x01, 0x22, 0x00, 0x00, 0x99, 0x7E]"
        and pre = "[0xBB, 0x01, 0x22, 0x00, 0x00]" and ?c1.0 = "0x23" and ?rest1.0 = "[]"
        and ?c2.0 = "0x99" and ?rest2.0 = "[]" and ?n1.0 = 7 and ?n2.0 = 7 and ?t1.0 = 500 and ?t2.0 = 500]
    by simp
  moreover have "sum_bytes [0xBB, 0x01, 0x22, 0x00, 0x00, 0x99, 0x7E] 1 5 \<noteq> 0x99"
    by (simp add: sum_bytes_def upt_rec)
  ultimately show ?thesis by simp
qed

text \<open>
  C8 as stated fails for a frame of 257 bytes: it starts with 0xBB and ends with 0x7E, but
  the index has wrapped and the 0x7E is stored over the 0xBB in \<open>buffer[0]\<close>.
\<close>

theorem waitMsg_long_frame_counterexample:
  "hd (0xBB # replicate 255 0x00 @ [0x7E :: u8]) = 0xBB \<and>
   last (0xBB # replicate 255 0x00 @ [0x7E :: u8]) = 0x7E \<and>
   verdict (waitMsg 257 500 (driver_with (0xBB # replicate 255 0x00 @ [0x7E]))) = Some (Inr False)"
proof -
  define s where "s = driver_with (0xBB # replicate 255 0x00 @ [0x7E])"
  have rx0: "rx (advance (serial s)) = (0xBB # replicate 255 0x00) @ 0x7E # []"
    by (simp add: s_def silent_def)
  have nt: "(0x7E :: u8) \<notin> set (0xBB # replicate 255 0x00)" by simp
  from waitMsg_loop_pending [OF rx0 nt, of 0 "fst (script (serial s) (calls (serial s)))" 500 0
      "cleanBuffer (buffer s)"]
  obtain p where loop:
    "waitMsg_loop 257 (fst (script (serial s) (calls (serial s)))) 500 0 (cleanBuffer (buffer s))
       (advance (serial s)) =
     Some (1, store 0 ((0xBB # replicate 255 0x00) @ [0x7E]) (cleanBuffer (buffer s)), p)"
    by auto
  have "store 0 ((0xBB # replicate 255 0x00) @ [0x7E]) (cleanBuffer (buffer s)) =
        (store 0 (0xBB # replicate 255 0x00) (cleanBuffer (buffer s)))[0 := 0x7E]"
    using store_append [of 0 "0xBB # replicate 255 0x00" "[0x7E]" "cleanBuffer (buffer s)"]
    by simp
  moreover have "length (store 0 (0xBB # replicate 255 0x00) (cleanBuffer (buffer s))) = 256"
    by (simp add: s_def length_cleanBuffer)
  ultimately have b: "store 0 ((0xBB # replicate 255 0x00) @ [0x7E]) (cleanBuffer (buffer s)) ! 0 = 0x7E"
    by simp
  have "verdict (waitMsg 257 500 s) = Some (Inr False)"
    using verdict_waitMsg [OF loop] b by simp
  then show ?thesis by (simp add: s_def)
qed

text \<open>
  C7. Take a transport that delivers no 0x7E. \<open>waitMsg\<close> never reports success on it,
  and it reports failure only after a reading of the clock has shown the timeout as elapsed
  since the call began. If the transport falls silent (nothing arrives from the \<open>K\<close>-th platform
  call on) and every reading of the clock from the \<open>K\<close>-th call on, for as many calls as
  the loop can still make, shows the timeout as elapsed, then \<open>waitMsg\<close> returns; it
  returns false when fewer than 256 bytes are pending or arrive before. If a byte arrives
  before every platform call, so that one is pending at every test of the loop, \<open>waitMsg\<close>
  never returns. The default timeout is 500.
\<close>

theorem waitMsg_times_out:
  assumes wf: "length (buffer s) = 256" and nt: "no_terminator (serial s)"
  shows "(\<forall>n ok s'. waitMsg n time s = Some (Inr (ok, s')) \<longrightarrow>
            \<not> ok \<and> time \<le> fst (script (serial s) (calls (serial s') - 1)) -
                             fst (script (serial s) (calls (serial s)))) \<and>
         (\<forall>K n. quiet_from (script (serial s)) K \<and> calls (serial s) \<le> K \<and>
                 late_between (script (serial s)) (fst (script (serial s) (calls (serial s)))) time
                   K (K + 4 * backlog (serial s) K + 5) \<and>
                 backlog (serial s) K + K < n \<longrightarrow>
            (\<exists>r. waitMsg n time s = Some r) \<and>
            (backlog (serial s) K < 256 \<longrightarrow> (\<exists>s'. waitMsg n time s = Some (Inr (False, s'))))) \<and>
         ((\<forall>k\<ge>calls (serial s). snd (script (serial s) k) \<noteq> []) \<longrightarrow>
            (\<forall>n. waitMsg n time s = None)) \<and>
         waitMsg_default = 500"
proof -
  have A: "\<not> ok \<and> time \<le> fst (script (serial s) (calls (serial s') - 1)) -
                             fst (script (serial s) (calls (serial s)))"
    if "waitMsg n time s = Some (Inr (ok, s'))" for n ok s'
    using waitMsg_never_accepts [OF wf nt that] .
  have B: "(\<exists>r. waitMsg n time s = Some r) \<and>
           (backlog (serial s) K < 256 \<longrightarrow> (\<exists>s'. waitMsg n time s = Some (Inr (False, s'))))"
    if h: "quiet_from (script (serial s)) K \<and> calls (serial s) \<le> K \<and>
           late_between (script (serial s)) (fst (script (serial s) (calls (serial s)))) time
             K (K + 4 * backlog (serial s) K + 5) \<and>
           backlog (serial s) K + K < n" for K n
  proof -
    from h have q: "quiet_from (script (serial s)) K" and c: "calls (serial s) \<le> K"
      and l: "late_between (script (serial s)) (fst (script (serial s) (calls (serial s)))) time
                K (K + 4 * backlog (serial s) K + 5)"
      by simp_all
    from h have fuel: "backlog (serial s) K + (K - calls (serial s)) < n"
      by arith
    have "\<exists>r. waitMsg n time s = Some r" using waitMsg_quiet_returns [OF q c l fuel] .
    moreover have "\<exists>s'. waitMsg n time s = Some (Inr (False, s'))" if "backlog (serial s) K < 256"
      using waitMsg_quiet [OF wf nt q c l that fuel] by blast
    ultimately show ?thesis by blast
  qed
  have C: "waitMsg n time s = None" if "\<forall>k\<ge>calls (serial s). snd (script (serial s) k) \<noteq> []" for n
  proof -
    have "waitMsg_loop n (fst (script (serial s) (calls (serial s)))) time 0
            (cleanBuffer (buffer s)) (advance (serial s)) = None"
      using that by (intro waitMsg_loop_busy [OF no_terminator_advance [OF nt]]) simp
    then show ?thesis by (simp add: waitMsg_def millis_def)
  qed
  show ?thesis
    using A B C by (simp add: waitMsg_default_def) blast
qed

text \<open>
  Two bytes received and no more, a clock that gains 100 ms with each call, the timeout
  500: \<open>waitMsg\<close> gives up, no earlier than at 500 ms. And with a zero byte before every
  call it never returns, here with the timeout 1000.
\<close>

theorem waitMsg_times_out_witness:
  "(\<exists>s'. waitMsg 8 500 (driver_with [0xBB, 0x01]) = Some (Inr (False, s')) \<and>
         (500 :: u32) \<le> fst (silent (calls (serial s') - 1)) - fst (silent 0)) \<and>
   (\<forall>n. waitMsg n 1000 chatty_driver = None) \<and> waitMsg_default = 500"
proof -
  define s where "s = driver_with [0xBB, 0x01]"
  have wf: "length (buffer s) = 256" by (simp add: s_def)
  have nt: "no_terminator (serial s)" by (simp add: s_def no_terminator_def silent_def)
  note t = waitMsg_times_out [OF wf nt, of 500]
  have bl: "backlog (serial s) 5 = 2"
    by (simp add: s_def backlog_def silent_def)
  have late: "late_between silent 0 500 5 18"
  proof -
    have "(500 :: u32) \<le> of_nat (100 * k)" if "5 \<le> k" "k < 18" for k
    proof -
      from that have "unat (of_nat (100 * k) :: u32) = 100 * k"
        by (subst unat_of_nat) simp
      with that show ?thesis by (simp add: word_le_nat_alt)
    qed
    then show ?thesis by (simp add: late_between_def silent_def)
  qed
  have h: "quiet_from (script (serial s)) 5 \<and> calls (serial s) \<le> 5 \<and>
           late_between (script (serial s)) (fst (script (serial s) (calls (serial s)))) 500
             5 (5 + 4 * backlog (serial s) 5 + 5) \<and>
           backlog (serial s) 5 + 5 < 8"
    using late by (simp add: bl) (simp add: s_def quiet_from_def silent_def)
  from t h have "backlog (serial s) 5 < 256 \<longrightarrow> (\<exists>s'. waitMsg 8 500 s = Some (Inr (False, s')))"
    by blast
  then obtain s' where run: "waitMsg 8 500 s = Some (Inr (False, s'))"
    by (auto simp: bl)
  from t run have "(500 :: u32) \<le> fst (script (serial s) (calls (serial s') - 1)) -
                                   fst (script (serial s) (calls (serial s)))"
    by blast
  then have le: "(500 :: u32) \<le> fst (silent (calls (serial s') - 1)) - fst (silent 0)"
    by (simp add: s_def)
  have wfc: "length (buffer chatty_driver) = 256" by (simp add: chatty_driver_def)
  have ntc: "no_terminator (serial chatty_driver)"
    by (simp add: no_terminator_def chatty_driver_def chatty_def)
  have busy: "\<forall>k\<ge>calls (serial chatty_driver). snd (script (serial chatty_driver) k) \<noteq> []"
    by (simp add: chatty_driver_def chatty_def)
  from waitMsg_times_out [OF wfc ntc, of 1000] busy
  have never: "\<forall>n. waitMsg n 1000 chatty_driver = None" by blast
  from t have "waitMsg_default = 500" by blast
  with run le never show ?thesis unfolding s_def by blast
qed

text \<open>
  C7 as stated fails twice. On a transport where a zero byte arrives before every call, no
  0x7E is ever delivered and \<open>waitMsg\<close> never returns, whatever the fuel: \<open>available()\<close>
  holds at every test of the loop, so the clock is never read again. And after 256 bytes
  without a 0x7E, the first of them 0xBB, and then silence, \<open>waitMsg\<close> does leave the loop
  at the timeout, but the index has wrapped to 0 and the final test reads \<open>buffer[-1]\<close>:
  it reports nothing that the language defines.
\<close>

theorem waitMsg_chatty_counterexample:
  "no_terminator (serial chatty_driver) \<and> (\<forall>n. waitMsg n 500 chatty_driver = None) \<and>
   no_terminator (serial (driver_with (0xBB # replicate 255 0x00))) \<and>
   verdict (waitMsg 257 500 (driver_with (0xBB # replicate 255 0x00))) = Some (Inl BufferIndex)"
proof -
  have nt: "no_terminator (serial chatty_driver)"
    by (simp add: no_terminator_def chatty_driver_def chatty_def)
  have "waitMsg n 500 chatty_driver = None" for n
  proof -
    have "waitMsg_loop n (fst (script (serial chatty_driver) (calls (serial chatty_driver)))) 500 0
            (cleanBuffer (buffer chatty_driver)) (advance (serial chatty_driver)) = None"
      by (rule waitMsg_loop_busy [OF no_terminator_advance [OF nt]])
         (simp add: chatty_driver_def chatty_def)
    then show ?thesis by (simp add: waitMsg_def millis_def)
  qed
  moreover have "no_terminator (serial (driver_with (0xBB # replicate 255 0x00)))"
    by (simp add: no_terminator_def silent_def)
  ultimately show ?thesis using nt waitMsg_256_bytes by blast
qed

text \<open>
  C5. \<open>setTxPower(2600)\<close> builds a frame with \<open>buffer[5] = 0x0A\<close>, \<open>buffer[6] = 0x28\<close>
  and, at \<open>buffer[7]\<close>, the sum modulo 256 of the bytes 1 to 6. The first
  \<open>sizeof(SET_TX_POWER)\<close> bytes of this buffer are what it writes to the port.
\<close>

theorem setTxPower_2600_frame:
  assumes "length (buffer s) = 256" and "length (SET_TX_POWER c) \<le> 256"
  shows "\<exists>b. setTxPower_frame (SET_TX_POWER c) (buffer s) 2600 = Inr b \<and>
             b ! 5 = 0x0A \<and> b ! 6 = 0x28 \<and> b ! 7 = sum_bytes b 1 7 \<and>
             unat (b ! 7) = (\<Sum>k = 1..<7. unat (b ! k)) mod 256 \<and>
             (\<forall>fuel ok s'. setTxPower fuel c s 2600 = Some (Inr (ok, s')) \<longrightarrow>
                tx (serial s') = tx (serial s) @ [take (length (SET_TX_POWER c)) b])"
proof -
  from memcpy_buffer_Inr [OF assms(2,1)] obtain b0 where
    m: "memcpy_buffer (buffer s) (SET_TX_POWER c) = Inr b0" and len: "length b0 = 256"
    by blast
  define b2 where "b2 = b0[5 := 0x0A, 6 := 0x28]"
  define b where "b = b2[7 := sum_bytes b2 1 7]"
  have fr: "setTxPower_frame (SET_TX_POWER c) (buffer s) 2600 = Inr b"
    unfolding setTxPower_frame_def m Let_def split_2600 b_def b2_def by simp
  have "sum_bytes b 1 7 = sum_bytes b2 1 7"
    by (rule sum_bytes_cong) (simp add: b_def)
  then have chk: "b ! 7 = sum_bytes b 1 7"
    using len by (simp add: b_def b2_def)
  have b56: "b ! 5 = 0x0A" "b ! 6 = 0x28"
    using len by (simp_all add: b_def b2_def)
  have lb: "length b = 256" using len by (simp add: b_def b2_def)
  have sent: "tx (serial s') = tx (serial s) @ [take (length (SET_TX_POWER c)) b]"
    if run: "setTxPower fuel c s 2600 = Some (Inr (ok, s'))" for fuel ok s'
  proof -
    define s1 where "s1 = sendCMD (s\<lparr>buffer := b\<rparr>) (take (length (SET_TX_POWER c)) b)"
    from setTxPower_Inr [OF run fr] obtain ok1 where
      w: "waitMsg fuel waitMsg_default s1 = Some (Inr (ok1, s'))"
      unfolding s1_def by blast
    have "length (buffer s1) = 256" by (simp add: s1_def sendCMD_def lb)
    from waitMsg_Inr [OF w this] have "tx (serial s') = tx (serial s1)" by blast
    then show ?thesis by (simp add: s1_def sendCMD_def write_port_def)
  qed
  have u: "unat (b ! 7) = (\<Sum>k = 1..<7. unat (b ! k)) mod 256"
    unfolding chk [symmetric] unat_sum_bytes [of b 1 7, symmetric] chk [symmetric] ..
  show ?thesis
    using fr b56 chk sent u by blast
qed

text \<open>
  With a 9-byte template the frame is BB 00 B6 00 02 0A 28 EA 7E, and the module's
  acknowledgment BB 01 B6 00 01 00 B8 7E makes \<open>setTxPower\<close> return true.
\<close>

theorem setTxPower_2600_frame_witness:
  "\<exists>b s'. setTxPower_frame (SET_TX_POWER tabs) (replicate 256 0x55) 2600 = Inr b \<and>
          take 9 b = [0xBB, 0x00, 0xB6, 0x00, 0x02, 0x0A, 0x28, 0xEA, 0x7E] \<and>
          setTxPower 8 tabs (driver_with [0xBB, 0x01, 0xB6, 0x00, 0x01, 0x00, 0xB8, 0x7E]) 2600 =
            Some (Inr (True, s')) \<and>
          tx (serial s') = [[0xBB, 0x00, 0xB6, 0x00, 0x02, 0x0A, 0x28, 0xEA, 0x7E]]"
proof -
  define s where "s = driver_with [0xBB, 0x01, 0xB6, 0x00, 0x01, 0x00, 0xB8, 0x7E]"
  have wf: "length (buffer s) = 256" and lt: "length (SET_TX_POWER tabs) \<le> 256"
    by (simp_all add: s_def)
  from setTxPower_2600_frame [OF wf lt] obtain b where
    fr: "setTxPower_frame (SET_TX_POWER tabs) (buffer s) 2600 = Inr b" and
    b: "b ! 5 = 0x0A" "b ! 6 = 0x28" "b ! 7 = sum_bytes b 1 7" and
    sent: "\<And>fuel ok s'. setTxPower fuel tabs s 2600 = Some (Inr (ok, s')) \<Longrightarrow>
            tx (serial s') = tx (serial s) @ [take (length (SET_TX_POWER tabs)) b]"
    by blast
  have ev: "setTxPower_frame (SET_TX_POWER tabs) (replicate 256 0x55) 2600 =
          Inr ([0xBB, 0x00, 0xB6, 0x00, 0x02, 0x0A, 0x28, 0xEA, 0x7E] @ replicate 247 0x55)"
    by code_simp
  with fr have bv: "b = [0xBB, 0x00, 0xB6, 0x00, 0x02, 0x0A, 0x28, 0xEA, 0x7E] @ replicate 247 0x55"
    by (simp add: s_def)
  define s1 where "s1 = sendCMD (s\<lparr>buffer := b\<rparr>) (take (length (SET_TX_POWER tabs)) b)"
  have rx1: "rx (serial s1) = [0xBB, 0x01, 0xB6, 0x00, 0x01, 0x00, 0xB8] @ 0x7E # []"
    by (simp add: s1_def s_def sendCMD_def write_port_def silent_def)
  have l1: "length (buffer s1) = 256" by (simp add: s1_def sendCMD_def bv)
  have nt: "0x7E \<notin> set [0xBB, 0x01, 0xB6, 0x00, 0x01, 0x00, 0xB8 :: u8]" by simp
  have "\<exists>s'. waitMsg 8 waitMsg_default s1 =
               Some (Inr (hd ([0xBB, 0x01, 0xB6, 0x00, 0x01, 0x00, 0xB8 :: u8] @ [0x7E]) = 0xBB, s')) \<and>
             take 8 (buffer s') = [0xBB, 0x01, 0xB6, 0x00, 0x01, 0x00, 0xB8] @ [0x7E] \<and>
             length (buffer s') = 256 \<and>
             drop 8 (buffer s') = drop 8 (cleanBuffer (buffer s1)) \<and>
             cards s' = cards s1 \<and>
             rd (serial s') = rd (serial s1) @ [0xBB, 0x01, 0xB6, 0x00, 0x01, 0x00, 0xB8] @ [0x7E] \<and>
             script (serial s') = script (serial s1) \<and> tx (serial s') = tx (serial s1) \<and>
             (\<exists>arr. rx (serial s') = [] @ arr)"
    by (rule waitMsg_pending_ex [OF rx1 nt _ l1]) simp_all
  then obtain s2 where w: "waitMsg 8 waitMsg_default s1 = Some (Inr (True, s2))" and
    t2: "take 8 (buffer s2) = [0xBB, 0x01, 0xB6, 0x00, 0x01, 0x00, 0xB8, 0x7E]"
    by auto
  from t2 have "take 8 (buffer s2) ! 2 = 0xB6" by simp
  then have b2: "buffer s2 ! 2 = 0xB6" by simp
  have run: "setTxPower 8 tabs s 2600 = Some (Inr (True, s2))"
    unfolding setTxPower_def fr using w b2 by (simp add: s1_def)
  from sent [OF run] have "tx (serial s2) = [[0xBB, 0x00, 0xB6, 0x00, 0x02, 0x0A, 0x28, 0xEA, 0x7E]]"
    by (simp add: s_def bv)
  with run ev show ?thesis
    unfolding s_def by (intro exI conjI) (assumption, simp, assumption, assumption)
qed



text \<open>
  C2. \<open>setRegion\<close> writes the frame BB 00 07 00 01 region checksum 7E, waits, reads away
  whatever has been received without looking at it, and returns true. It returns once the
  bytes stop arriving (none after the \<open>K\<close>-th platform call): every byte that was pending
  at the call has then been read, with those that arrived meanwhile, the receive queue is
  empty, and the frame buffer and the tag table are as they were. No run of it returns
  false. No acknowledgment byte is validated.
\<close>

theorem setRegion_unconditional:
  assumes "quiet_from (script (serial s)) K" and "backlog (serial s) K < fuel"
  shows "(\<exists>s' ns. setRegion fuel s regionCode = Some (True, s') \<and>
               buffer s' = buffer s \<and> cards s' = cards s \<and>
               tx (serial s') =
                 tx (serial s) @ [[0xBB, 0x00, 0x07, 0x00, 0x01, regionCode, 0x08 + regionCode, 0x7E]] \<and>
               rx (serial s') = [] \<and>
               rd (serial s') = rd (serial s) @ rx (serial s) @ ns \<and>
               length (rx (serial s) @ ns) \<le> backlog (serial s) K) \<and>
         (\<forall>n s'. setRegion n s regionCode \<noteq> Some (False, s'))"
proof -
  define p where "p = delay (serial (sendCMD s (setRegion_frame regionCode)))"
  have sc: "script p = script (serial s)" and
    txp: "tx p = tx (serial s) @ [setRegion_frame regionCode]" and
    bl: "backlog p K = backlog (serial s) K" and
    rdp: "rd p = rd (serial s)" and
    rxp: "rx p = rx (serial s) @ snd (script (serial s) (calls (serial s))) @
                 snd (script (serial s) (Suc (calls (serial s))))"
    using backlog_advance [OF assms(1)] backlog_advance [of "advance (serial s)" K] assms(1)
    by (simp_all add: p_def delay_def sendCMD_def write_port_def backlog_def)
  have q: "quiet_from (script p) K" using assms(1) by (simp add: sc)
  from drain_terminates [of p K fuel] assms sc bl obtain p' where d: "drain fuel p = Some p'"
    by auto
  from drain_reads [OF d, of K] q obtain ns0 where
    e: "rx p' = []" and rd: "rd p' = rd p @ rx p @ ns0" and
    cnt: "length (rd p') + backlog p' K = length (rd p) + backlog p K"
    by blast
  define ns where "ns = snd (script (serial s) (calls (serial s))) @
                        snd (script (serial s) (Suc (calls (serial s)))) @ ns0"
  have rd': "rd p' = rd (serial s) @ rx (serial s) @ ns"
    using rd by (simp add: rdp rxp ns_def)
  have len: "length (rx (serial s) @ ns) \<le> backlog (serial s) K"
    using cnt rd' by (simp add: rdp bl)
  from drain_Some [OF d] have "tx p' = tx p" by simp
  moreover have "setRegion fuel s regionCode =
                   Some (True, (sendCMD s (setRegion_frame regionCode))\<lparr>serial := p'\<rparr>)"
    unfolding setRegion_def Let_def p_def [symmetric] d by simp
  ultimately have "setRegion fuel s regionCode =
               Some (True, (sendCMD s (setRegion_frame regionCode))\<lparr>serial := p'\<rparr>) \<and>
             buffer ((sendCMD s (setRegion_frame regionCode))\<lparr>serial := p'\<rparr>) = buffer s \<and>
             cards ((sendCMD s (setRegion_frame regionCode))\<lparr>serial := p'\<rparr>) = cards s \<and>
             tx (serial ((sendCMD s (setRegion_frame regionCode))\<lparr>serial := p'\<rparr>)) =
               tx (serial s) @ [[0xBB, 0x00, 0x07, 0x00, 0x01, regionCode, 0x08 + regionCode, 0x7E]] \<and>
             rx (serial ((sendCMD s (setRegion_frame regionCode))\<lparr>serial := p'\<rparr>)) = [] \<and>
             rd (serial ((sendCMD s (setRegion_frame regionCode))\<lparr>serial := p'\<rparr>)) =
               rd (serial s) @ rx (serial s) @ ns"
    using txp e rd' by (simp add: sendCMD_def setRegion_frame_eq)
  moreover have "setRegion n s regionCode \<noteq> Some (False, s')" for n s'
    by (simp add: setRegion_def Let_def split: option.splits)
  ultimately show ?thesis using len by blast
qed

text \<open>
  Region 2, with an acknowledgment of eight bytes waiting: the eight bytes are read and
  none is left, the buffer still holds 0x55 throughout.
\<close>

theorem setRegion_unconditional_witness:
  "\<exists>s'. setRegion 9 (driver_with [0xBB, 0x01, 0x07, 0x00, 0x01, 0x00, 0x09, 0x7E]) 0x02 = Some (True, s') \<and>
        tx (serial s') = [[0xBB, 0x00, 0x07, 0x00, 0x01, 0x02, 0x0A, 0x7E]] \<and>
        rx (serial s') = [] \<and>
        rd (serial s') = [0xBB, 0x01, 0x07, 0x00, 0x01, 0x00, 0x09, 0x7E] \<and>
        buffer s' = replicate 256 0x55"
proof -
  have q: "quiet_from (script (serial (driver_with [0xBB, 0x01, 0x07, 0x00, 0x01, 0x00, 0x09, 0x7E]))) 0"
    by (simp add: quiet_from_def silent_def)
  have b: "backlog (serial (driver_with [0xBB, 0x01, 0x07, 0x00, 0x01, 0x00, 0x09, 0x7E])) 0 < 9"
    by (simp add: backlog_def)
  from setRegion_unconditional [OF q b, of "0x02"] show ?thesis
    by (auto simp: backlog_def)
qed

text \<open>
  C2 as stated fails: with no response at all (the case of a timeout), and with a
  response 00 FF that has neither marker, \<open>setRegion\<close> returns true.
\<close>

theorem setRegion_no_ack_counterexample:
  "map_option fst (setRegion 1 (driver_with []) 0x02) = Some True \<and>
   map_option fst (setRegion 3 (driver_with [0x00, 0xFF]) 0x02) = Some True"
  by code_simp

text \<open>
  C4. \<open>saveCardInfo\<close> returns true and stores the record of the frame in the buffer, at
  the slot it is given, exactly when none of the 200 slots holds the same EPC string;
  otherwise it returns false and changes nothing. So once a record is stored, a frame with
  the same twelve EPC bytes is turned down whatever its RSSI, and the table keeps the
  first record. The slot it is given is the next free one: at \<open>next_free\<close> it is
  \<open>insertIfNew\<close>, the slot is free and every slot below is taken; \<open>pollingOnce\<close> and
  \<open>pollingMultiple\<close>, which pass \<open>&cards[count]\<close>, are the scan that inserts with
  \<open>insertIfNew\<close>; and when a scan returns \<open>n\<close>, the slots below \<open>n\<close> are the taken ones.
\<close>

theorem saveCardInfo_inserts_if_new:
  assumes "k < 200" and "length (cards s) = 200"
  shows "saveCardInfo s k =
           (if \<forall>i<200. epc_str (cards s ! i) \<noteq> epc_of (buffer s)
            then Inr (True, s\<lparr>cards := (cards s)[k := card_of (buffer s)]\<rparr>)
            else Inr (False, s)) \<and>
         (\<forall>s1 buf2 k2. saveCardInfo s k = Inr (True, s1) \<and>
              map (\<lambda>i. buf2 ! i) [8..<20] = map (\<lambda>i. buffer s ! i) [8..<20] \<longrightarrow>
              cards s1 ! k = card_of (buffer s) \<and>
              saveCardInfo (s1\<lparr>buffer := buf2\<rparr>) k2 = Inr (False, s1\<lparr>buffer := buf2\<rparr>)) \<and>
         (k = next_free (cards s) \<longrightarrow>
            insertIfNew s = saveCardInfo s k \<and>
            cards s ! k = empty_card \<and> (\<forall>i<k. cards s ! i \<noteq> empty_card)) \<and>
         (\<forall>fuel c. pollingOnce fuel c s =
            scan_loop fuel 0 (sendCMD (s\<lparr>cards := cleanCardsBuffer (cards s)\<rparr>) (POLLING_ONCE_CMD c))) \<and>
         (\<forall>fuel c polling_count. pollingMultiple fuel c s polling_count =
            (case pollingMultiple_frame (POLLING_MULTIPLE_CMD c) (buffer s) polling_count of
               Inl e \<Rightarrow> Some (Inl e)
             | Inr b \<Rightarrow>
                 scan_loop fuel 0
                   (sendCMD (s\<lparr>cards := cleanCardsBuffer (cards s), buffer := b\<rparr>)
                      (take (length (POLLING_MULTIPLE_CMD c)) b)))) \<and>
         (\<forall>fuel c n s'. pollingOnce fuel c s = Some (Inr (n, s')) \<longrightarrow>
            next_free (cards s') = unat n \<and>
            (\<forall>i. unat n \<le> i \<and> i < 200 \<longrightarrow> cards s' ! i = empty_card)) \<and>
         (\<forall>fuel c polling_count n s'. pollingMultiple fuel c s polling_count = Some (Inr (n, s')) \<longrightarrow>
            next_free (cards s') = unat n \<and>
            (\<forall>i. unat n \<le> i \<and> i < 200 \<longrightarrow> cards s' ! i = empty_card))"
proof -
  have A: "saveCardInfo s k =
           (if \<forall>i<200. epc_str (cards s ! i) \<noteq> epc_of (buffer s)
            then Inr (True, s\<lparr>cards := (cards s)[k := card_of (buffer s)]\<rparr>)
            else Inr (False, s))"
    using assms(1) by (simp add: saveCardInfo_eq filterCardInfo_iff)
  have B: "cards s1 ! k = card_of (buffer s) \<and>
           saveCardInfo (s1\<lparr>buffer := buf2\<rparr>) k2 = Inr (False, s1\<lparr>buffer := buf2\<rparr>)"
    if a: "saveCardInfo s k = Inr (True, s1) \<and>
           map (\<lambda>i. buf2 ! i) [8..<20] = map (\<lambda>i. buffer s ! i) [8..<20]" for s1 buf2 k2
  proof -
    from a have s1: "s1 = s\<lparr>cards := (cards s)[k := card_of (buffer s)]\<rparr>"
      by (auto simp: saveCardInfo_eq split: if_splits)
    have st: "cards s1 ! k = card_of (buffer s)"
      using assms by (simp add: s1)
    then have "epc_str (cards s1 ! k) = epc_of buf2"
      using epc_of_cong [OF conjunct2 [OF a]] by (simp add: card_of_def)
    then have "\<not> filterCardInfo (cards (s1\<lparr>buffer := buf2\<rparr>)) (epc_of (buffer (s1\<lparr>buffer := buf2\<rparr>)))"
      using assms(1) by (auto simp: filterCardInfo_iff)
    then have "saveCardInfo (s1\<lparr>buffer := buf2\<rparr>) k2 = Inr (False, s1\<lparr>buffer := buf2\<rparr>)"
      by (simp add: saveCardInfo_eq)
    with st show ?thesis by simp
  qed
  have C: "insertIfNew s = saveCardInfo s k \<and>
           cards s ! k = empty_card \<and> (\<forall>i<k. cards s ! i \<noteq> empty_card)"
    if "k = next_free (cards s)"
    using next_free_first [OF that [symmetric] assms] that by (simp add: insertIfNew_def)
  have clean: "cleanCardsBuffer (cards s) = replicate 200 empty_card"
    using assms(2) by (rule cleanCardsBuffer_eq)
  have D: "pollingOnce fuel c s =
            scan_loop fuel 0 (sendCMD (s\<lparr>cards := cleanCardsBuffer (cards s)\<rparr>) (POLLING_ONCE_CMD c))"
    for fuel c
    unfolding pollingOnce_def
    by (rule pollingOnce_loop_scan) (simp_all add: sendCMD_def clean packed_empty)
  have E: "pollingMultiple fuel c s polling_count =
            (case pollingMultiple_frame (POLLING_MULTIPLE_CMD c) (buffer s) polling_count of
               Inl e \<Rightarrow> Some (Inl e)
             | Inr b \<Rightarrow>
                 scan_loop fuel 0
                   (sendCMD (s\<lparr>cards := cleanCardsBuffer (cards s), buffer := b\<rparr>)
                      (take (length (POLLING_MULTIPLE_CMD c)) b)))"
    for fuel c polling_count
  proof (cases "pollingMultiple_frame (POLLING_MULTIPLE_CMD c) (buffer s) polling_count")
    case (Inl e)
    then show ?thesis by (simp add: pollingMultiple_def)
  next
    case (Inr b)
    have "pollingMultiple_loop fuel 0
            (sendCMD (s\<lparr>cards := cleanCardsBuffer (cards s), buffer := b\<rparr>)
               (take (length (POLLING_MULTIPLE_CMD c)) b)) =
          scan_loop fuel 0
            (sendCMD (s\<lparr>cards := cleanCardsBuffer (cards s), buffer := b\<rparr>)
               (take (length (POLLING_MULTIPLE_CMD c)) b))"
      by (rule pollingMultiple_loop_scan) (simp_all add: sendCMD_def clean packed_empty)
    then show ?thesis using Inr by (simp add: pollingMultiple_def)
  qed
  have fin: "next_free (cards s') = unat n \<and>
             (\<forall>i. unat n \<le> i \<and> i < 200 \<longrightarrow> cards s' ! i = empty_card)"
    if "scan_loop fuel 0 s0 = Some (Inr (n, s'))" "cards s0 = replicate 200 empty_card" for fuel s0 n s'
  proof -
    from scan_loop_packed [OF that(1)] that(2)
    have p: "packed (cards s') (unat n)" "length (cards s') = 200" "n \<le> 200"
      by (simp_all add: packed_empty)
    from p(3) have "unat n \<le> 200" by (simp add: word_le_nat_alt)
    from next_free_packed [OF p(1,2) this] packed_tail [OF p(1)] p(2) show ?thesis by simp
  qed
  have F: "next_free (cards s') = unat n \<and>
           (\<forall>i. unat n \<le> i \<and> i < 200 \<longrightarrow> cards s' ! i = empty_card)"
    if "pollingOnce fuel c s = Some (Inr (n, s'))" for fuel c n s'
    using that unfolding D by (rule fin) (simp add: sendCMD_def clean)
  have G: "next_free (cards s') = unat n \<and>
           (\<forall>i. unat n \<le> i \<and> i < 200 \<longrightarrow> cards s' ! i = empty_card)"
    if run: "pollingMultiple fuel c s polling_count = Some (Inr (n, s'))" for fuel c polling_count n s'
  proof (cases "pollingMultiple_frame (POLLING_MULTIPLE_CMD c) (buffer s) polling_count")
    case (Inl e)
    then show ?thesis using run by (simp add: pollingMultiple_def)
  next
    case (Inr b)
    from run have "scan_loop fuel 0
                   (sendCMD (s\<lparr>cards := cleanCardsBuffer (cards s), buffer := b\<rparr>)
                      (take (length (POLLING_MULTIPLE_CMD c)) b)) = Some (Inr (n, s'))"
      unfolding E Inr by simp
    then show ?thesis by (rule fin) (simp add: sendCMD_def clean)
  qed
  show ?thesis
    using A B C D E F G by blast
qed

text \<open>
  The same tag seen twice, with RSSI 0xC9 and then 0xC0, on an empty table: the first
  record is stored in slot 0, the next free one, and the second frame is turned down. A
  scan that receives the two frames returns 1 with the first record in slot 0 and slot 1
  free; a scan that hears nothing returns 0 with slot 0 free.
\<close>

theorem saveCardInfo_inserts_if_new_witness:
  "(\<exists>s1. saveCardInfo (table_driver (tag_frame 0xC9)) 0 = Inr (True, s1) \<and>
        insertIfNew (table_driver (tag_frame 0xC9)) = Inr (True, s1) \<and>
        rssi (cards s1 ! 0) = 0xC9 \<and> epc_str (cards s1 ! 0) = ''0102030405060708090a0b0c'' \<and>
        saveCardInfo (s1\<lparr>buffer := buffer (table_driver (tag_frame 0xC0))\<rparr>) 1 =
          Inr (False, s1\<lparr>buffer := buffer (table_driver (tag_frame 0xC0))\<rparr>)) \<and>
   (\<exists>s'. pollingOnce 30 tabs (driver_with (tag_frame 0xC9 @ tag_frame 0xC0)) = Some (Inr (1, s')) \<and>
         rssi (cards s' ! 0) = 0xC9 \<and> next_free (cards s') = 1 \<and> cards s' ! 1 = empty_card) \<and>
   (\<exists>s'. pollingMultiple 10 tabs (driver_with []) 1 = Some (Inr (0, s')) \<and> next_free (cards s') = 0)"
proof -
  define s where "s = table_driver (tag_frame 0xC9)"
  define buf2 where "buf2 = buffer (table_driver (tag_frame 0xC0))"
  define s1 where "s1 = s\<lparr>cards := (cards s)[0 := card_of (buffer s)]\<rparr>"
  have wf: "length (cards s) = 200" by (simp add: s_def table_driver_def)
  have k: "(0 :: nat) < 200" by simp
  note ins = saveCardInfo_inserts_if_new [OF k wf]
  have new: "\<forall>i<200. epc_str (cards s ! i) \<noteq> epc_of (buffer s)"
    using epc_of_nonempty [of "buffer s"] by (auto simp: s_def table_driver_def empty_card_def)
  with ins have first: "saveCardInfo s 0 = Inr (True, s1)"
    by (simp add: s1_def)
  have nf: "0 = next_free (cards s)"
    by (simp add: s_def table_driver_def next_free_def)
  with ins first have spec: "insertIfNew s = Inr (True, s1)" by simp
  have same: "map (\<lambda>i. buf2 ! i) [8..<20] = map (\<lambda>i. buffer s ! i) [8..<20]"
    unfolding buf2_def s_def by code_simp
  from ins first same have stored: "cards s1 ! 0 = card_of (buffer s)"
    and second: "saveCardInfo (s1\<lparr>buffer := buf2\<rparr>) 1 = Inr (False, s1\<lparr>buffer := buf2\<rparr>)"
    by blast+
  have r: "rssi (card_of (buffer s)) = 0xC9"
    by (simp add: card_of_def s_def table_driver_def tag_frame_def)
  have e: "epc_str (card_of (buffer s)) = ''0102030405060708090a0b0c''"
    unfolding s_def by code_simp
  have P1: "\<exists>s1. saveCardInfo (table_driver (tag_frame 0xC9)) 0 = Inr (True, s1) \<and>
        insertIfNew (table_driver (tag_frame 0xC9)) = Inr (True, s1) \<and>
        rssi (cards s1 ! 0) = 0xC9 \<and> epc_str (cards s1 ! 0) = ''0102030405060708090a0b0c'' \<and>
        saveCardInfo (s1\<lparr>buffer := buffer (table_driver (tag_frame 0xC0))\<rparr>) 1 =
          Inr (False, s1\<lparr>buffer := buffer (table_driver (tag_frame 0xC0))\<rparr>)"
    using first spec second stored r e unfolding s_def buf2_def by (intro exI [of _ s1]) simp
  define s0 where "s0 = driver_with (tag_frame 0xC9 @ tag_frame 0xC0)"
  have wf0: "length (cards s0) = 200" by (simp add: s0_def)
  from pollingOnce_same_tag_twice obtain s4 where
    run1: "pollingOnce 30 tabs s0 = Some (Inr (1, s4))" and
    c4: "cards s4 = (replicate 200 empty_card)[0 := card_of (tag_frame 0xC9)]"
    unfolding s0_def by blast
  note scan = saveCardInfo_inserts_if_new [OF k wf0]
  from scan run1 have "next_free (cards s4) = unat (1 :: u8) \<and>
      (\<forall>i. unat (1 :: u8) \<le> i \<and> i < 200 \<longrightarrow> cards s4 ! i = empty_card)"
    by blast
  then have n4: "next_free (cards s4) = 1" "cards s4 ! 1 = empty_card" by simp_all
  have r4: "rssi (cards s4 ! 0) = 0xC9" by (simp add: c4 rssi_card_of_tag_frame)
  have P2: "\<exists>s'. pollingOnce 30 tabs (driver_with (tag_frame 0xC9 @ tag_frame 0xC0)) = Some (Inr (1, s')) \<and>
         rssi (cards s' ! 0) = 0xC9 \<and> next_free (cards s') = 1 \<and> cards s' ! 1 = empty_card"
    using run1 r4 n4 unfolding s0_def by blast
  from pollingMultiple_silent [of 1] obtain s5 where
    run3: "pollingMultiple 10 tabs (driver_with []) 1 = Some (Inr (0, s5))" by blast
  have wf5: "length (cards (driver_with [])) = 200" by simp
  from saveCardInfo_inserts_if_new [OF k wf5] run3 have "next_free (cards s5) = unat (0 :: u8)"
    by blast
  then have P3: "\<exists>s'. pollingMultiple 10 tabs (driver_with []) 1 = Some (Inr (0, s')) \<and> next_free (cards s') = 0"
    using run3 by auto
  from P1 P2 P3 show ?thesis by blast
qed

text \<open>
  C3. \<open>pollingOnce\<close> and \<open>pollingMultiple\<close> never store through a pointer outside the
  table (no run ends in \<open>CardIndex\<close>) and never return a count above 200. With 200
  records stored their loops store nothing more and end with the count 200: at the next
  tag frame (one that \<open>waitMsg\<close> accepts, with 0x7E at \<open>buffer[23]\<close>) they return 200 at
  once, in the state that \<open>waitMsg\<close> left, with the table as it was.
\<close>

theorem polling_within_capacity:
  assumes "length (buffer s) = 256"
  shows "pollingOnce fuel c s \<noteq> Some (Inl CardIndex) \<and>
         pollingMultiple fuel c s polling_count \<noteq> Some (Inl CardIndex) \<and>
         (\<forall>n s'. pollingOnce fuel c s = Some (Inr (n, s')) \<longrightarrow> n \<le> 200) \<and>
         (\<forall>n s'. pollingMultiple fuel c s polling_count = Some (Inr (n, s')) \<longrightarrow> n \<le> 200) \<and>
         (\<forall>n s'. pollingOnce_loop fuel 200 s = Some (Inr (n, s')) \<longrightarrow> n = 200 \<and> cards s' = cards s) \<and>
         (\<forall>n s'. pollingMultiple_loop fuel 200 s = Some (Inr (n, s')) \<longrightarrow> n = 200 \<and> cards s' = cards s) \<and>
         (\<forall>m s1. waitMsg m waitMsg_default s = Some (Inr (True, s1)) \<and> buffer s1 ! 23 = 0x7E \<longrightarrow>
            pollingOnce_loop (Suc m) 200 s = Some (Inr (200, s1)) \<and>
            pollingMultiple_loop (Suc m) 200 s = Some (Inr (200, s1)) \<and> cards s1 = cards s)"
proof -
  let ?s1 = "sendCMD (s\<lparr>cards := cleanCardsBuffer (cards s)\<rparr>) (POLLING_ONCE_CMD c)"
  have l1: "length (buffer ?s1) = 256" using assms by (simp add: sendCMD_def)
  have once: "r \<noteq> Inl CardIndex \<and> (\<forall>n s'. r = Inr (n, s') \<longrightarrow> n \<le> 200)"
    if "pollingOnce fuel c s = Some r" for r
  proof -
    from that have "pollingOnce_loop fuel 0 ?s1 = Some r" by (simp add: pollingOnce_def)
    from pollingOnce_loop_bound [OF this _ l1] show ?thesis by (simp add: word_le_nat_alt)
  qed
  have multi: "r \<noteq> Inl CardIndex \<and> (\<forall>n s'. r = Inr (n, s') \<longrightarrow> n \<le> 200)"
    if run: "pollingMultiple fuel c s polling_count = Some r" for r
  proof (cases "pollingMultiple_frame (POLLING_MULTIPLE_CMD c) (buffer s) polling_count")
    case (Inl e)
    then have "r = Inl BufferIndex"
      using run by (auto simp: pollingMultiple_def pollingMultiple_frame_def memcpy_buffer_def
          Let_def split: if_splits)
    then show ?thesis by simp
  next
    case (Inr b)
    let ?s2 = "sendCMD (s\<lparr>cards := cleanCardsBuffer (cards s), buffer := b\<rparr>)
                 (take (length (POLLING_MULTIPLE_CMD c)) b)"
    have l2: "length (buffer ?s2) = 256"
      using pollingMultiple_frame_Inr [OF Inr assms] by (simp add: sendCMD_def)
    from run Inr have "pollingMultiple_loop fuel 0 ?s2 = Some r" by (simp add: pollingMultiple_def)
    from pollingMultiple_loop_bound [OF this _ l2] show ?thesis by (simp add: word_le_nat_alt)
  qed
  have full1: "n = 200 \<and> cards s' = cards s" if "pollingOnce_loop fuel 200 s = Some (Inr (n, s'))" for n s'
    using pollingOnce_loop_bound [OF that _ assms] by simp
  have full2: "n = 200 \<and> cards s' = cards s" if "pollingMultiple_loop fuel 200 s = Some (Inr (n, s'))" for n s'
    using pollingMultiple_loop_bound [OF that _ assms] by simp
  have stop: "pollingOnce_loop (Suc m) 200 s = Some (Inr (200, s1)) \<and>
              pollingMultiple_loop (Suc m) 200 s = Some (Inr (200, s1)) \<and> cards s1 = cards s"
    if "waitMsg m waitMsg_default s = Some (Inr (True, s1)) \<and> buffer s1 ! 23 = 0x7E" for m s1
    using that waitMsg_cards [of m waitMsg_default s True s1] by simp
  show ?thesis
    using once multi full1 full2 stop by blast
qed

text \<open>
  A scan that hears the same tag twice and then nothing: \<open>pollingOnce\<close> stores the first
  record and returns 1; a \<open>pollingMultiple\<close> that hears nothing returns 0. And with the
  count at 200 and two tag frames waiting, both loops answer the first frame with 200,
  leave the table as it was and the second frame unread.
\<close>

theorem polling_within_capacity_witness:
  "(\<exists>s'. pollingOnce 30 tabs (driver_with (tag_frame 0xC9 @ tag_frame 0xC0)) = Some (Inr (1, s')) \<and>
         rssi (cards s' ! 0) = 0xC9 \<and> (1 :: u8) \<le> 200) \<and>
   (\<exists>s'. pollingMultiple 10 tabs (driver_with []) 1 = Some (Inr (0, s')) \<and> (0 :: u8) \<le> 200) \<and>
   (\<exists>s'. pollingOnce_loop 25 200 (driver_with (tag_frame 0xC9 @ tag_frame 0xC0)) = Some (Inr (200, s')) \<and>
         pollingMultiple_loop 25 200 (driver_with (tag_frame 0xC9 @ tag_frame 0xC0)) =
           Some (Inr (200, s')) \<and>
         cards s' = cards (driver_with (tag_frame 0xC9 @ tag_frame 0xC0)) \<and>
         rx (serial s') = tag_frame 0xC0)"
proof -
  define s0 where "s0 = driver_with (tag_frame 0xC9 @ tag_frame 0xC0)"
  have wf0: "length (buffer s0) = 256" by (simp add: s0_def)
  from pollingOnce_same_tag_twice obtain s4 where
    run1: "pollingOnce 30 tabs s0 = Some (Inr (1, s4))" and
    c4: "cards s4 = (replicate 200 empty_card)[0 := card_of (tag_frame 0xC9)]"
    unfolding s0_def by blast
  have r: "rssi (cards s4 ! 0) = 0xC9" by (simp add: c4 rssi_card_of_tag_frame)
  from pollingMultiple_silent [of 1] obtain s5 where
    run3: "pollingMultiple 10 tabs (driver_with []) 1 = Some (Inr (0, s5))" by blast
  have T: "rx (serial s0) = tag_frame 0xC9 @ tag_frame 0xC0" "script (serial s0) = silent"
    by (simp_all add: s0_def)
  from waitMsg_tag_frame [OF T(1) _ wf0 _ T(2), of 24] obtain t1 where
    w4: "waitMsg 24 waitMsg_default s0 = Some (Inr (True, t1))" and
    t1: "take 24 (buffer t1) = tag_frame 0xC9" "rx (serial t1) = tag_frame 0xC0"
    by auto
  have f4: "buffer t1 ! 23 = 0x7E" using take_24_nth(2) [OF t1(1)] by (simp add: tag_frame_def)
  note cap = polling_within_capacity [OF wf0, of 30 tabs 0]
  note cap2 = polling_within_capacity [of "driver_with []" 10 tabs 1]
  note cap3 = polling_within_capacity [OF wf0, of 25 tabs 0]
  have le: "(1 :: u8) \<le> 200" using cap run1 by blast
  have le0: "(0 :: u8) \<le> 200" using cap2 run3 by simp
  from cap3 w4 f4 have
    run2: "pollingOnce_loop (Suc 24) 200 s0 = Some (Inr (200, t1))" and
    run4: "pollingMultiple_loop (Suc 24) 200 s0 = Some (Inr (200, t1))"
    by blast+
  have S: "Suc 24 = 25" by simp
  have run2': "pollingOnce_loop 25 200 s0 = Some (Inr (200, t1))"
    and run4': "pollingMultiple_loop 25 200 s0 = Some (Inr (200, t1))"
    using run2 run4 unfolding S by blast+
  have same: "cards t1 = cards s0" using cap3 run2' by blast
  show ?thesis
    using run1 r le run3 le0 run2' run4' same t1(2) unfolding s0_def by blast
qed



end
